theory Spec2Isabelle
  imports Complex_Main "HOL-Library.AList"
begin

section \<open>Messages\<close>

text \<open>
  \<^verbatim>\<open>class MessageType(Enum)\<close>: five members, iterated in definition order. The display
  labels (\<^verbatim>\<open>.value\<close>) are Chinese words; a Python \<^verbatim>\<open>str\<close> is kept here as the
  list of its UTF-8 bytes, an injective encoding, so two labels are equal exactly when the
  Python strings are.
\<close>

datatype MessageType = ORDER | PAYMENT | INVENTORY | SHIPPING | NOTIFICATION

definition MessageType_members :: "MessageType list" where
  "MessageType_members = [ORDER, PAYMENT, INVENTORY, SHIPPING, NOTIFICATION]"

fun MessageType_value :: "MessageType \<Rightarrow> string" where
  "MessageType_value ORDER = [CHR 0xE8, CHR 0xAE, CHR 0xA2, CHR 0xE5, CHR 0x8D, CHR 0x95]"
| "MessageType_value PAYMENT = [CHR 0xE6, CHR 0x94, CHR 0xAF, CHR 0xE4, CHR 0xBB, CHR 0x98]"
| "MessageType_value INVENTORY = [CHR 0xE5, CHR 0xBA, CHR 0x93, CHR 0xE5, CHR 0xAD, CHR 0x98]"
| "MessageType_value SHIPPING = [CHR 0xE7, CHR 0x89, CHR 0xA9, CHR 0xE6, CHR 0xB5, CHR 0x81]"
| "MessageType_value NOTIFICATION = [CHR 0xE9, CHR 0x80, CHR 0x9A, CHR 0xE7, CHR 0x9F, CHR 0xA5]"

text \<open>
  Python checks no types at a call: the \<^verbatim>\<open>msg_type\<close> argument of a bus operation, and the
  \<^verbatim>\<open>msg_type\<close> attribute of a message, can be any object. What the bus does with it is a
  dictionary lookup (which hashes it) and, for the diagnostic line, a read of its
  \<^verbatim>\<open>.value\<close> attribute. The objects are therefore told apart by these two capabilities:
  a member of \<^verbatim>\<open>MessageType\<close>; a member of some other \<^verbatim>\<open>Enum\<close> (hashable, has
  \<^verbatim>\<open>.value\<close>); a string (hashable, no \<^verbatim>\<open>.value\<close>); a list (not hashable).
\<close>

datatype type_arg = Member MessageType | OtherEnum string | PyStr string | PyList

datatype exn = KeyError | TypeError | AttributeError | Empty

fun hashable :: "type_arg \<Rightarrow> bool" where
  "hashable PyList = False"
| "hashable _ = True"

fun value_attr :: "type_arg \<Rightarrow> exn + string" where
  "value_attr (Member t) = Inr (MessageType_value t)"
| "value_attr (OtherEnum v) = Inr v"
| "value_attr (PyStr s) = Inl AttributeError"
| "value_attr PyList = Inl AttributeError"

text \<open>
  \<^verbatim>\<open>class Message\<close>. The constructor stores its three arguments and the clock reading
  \<^verbatim>\<open>time.time()\<close>, which is an input here. A message is well-formed when its
  \<^verbatim>\<open>msg_type\<close> is a member of \<^verbatim>\<open>MessageType\<close>.
\<close>

record Message =
  msg_type :: type_arg
  content :: string
  sender :: string
  timestamp :: real

text \<open>\<^verbatim>\<open>Message.__str__\<close>: reading \<^verbatim>\<open>self.msg_type.value\<close> raises when there is no such attribute.\<close>

definition str_Message :: "Message \<Rightarrow> exn + string" where
  "str_Message m =
     (case value_attr (msg_type m) of
        Inl e \<Rightarrow> Inl e
      | Inr v \<Rightarrow> Inr (''['' @ v @ ''] '' @ sender m @ '': '' @ content m))"

section \<open>Mailboxes and the state\<close>

text \<open>
  A mailbox is a \<^verbatim>\<open>queue.Queue\<close> object. The bus stores references to such objects and
  compares them by identity (\<^verbatim>\<open>in\<close> on a list of objects without \<^verbatim>\<open>__eq__\<close>), and one
  object may be registered under several message types, so the objects live in a store:
  a reference is an address, the store gives every address its queue. A queue has its
  capacity (\<^verbatim>\<open>maxsize\<close>, unbounded when not positive) and its contents, oldest first.
\<close>

type_synonym mailbox = nat

record Queue =
  maxsize :: int
  items :: "Message list"

text \<open>
  The attributes of \<^verbatim>\<open>MessageBus\<close> and the store of queue objects. \<^verbatim>\<open>subscribers\<close> is
  a dictionary, kept as an association list in insertion order; \<^verbatim>\<open>lock\<close> is
  \<^verbatim>\<open>threading.Lock()\<close>, held or free; \<^verbatim>\<open>message_count\<close> is an unbounded integer.
\<close>

record bus_state =
  name :: string
  subscribers :: "(MessageType \<times> mailbox list) list"
  lock :: bool
  message_count :: int
  queues :: "mailbox \<Rightarrow> Queue"

text \<open>
  A call returns a value, raises an exception, or blocks: on the bus lock held by another
  caller, or on a full bounded mailbox. Every outcome carries the state at that moment.
\<close>

datatype wait = OnLock | NotFull mailbox

datatype 'a outcome = Returned 'a bus_state | Raised exn bus_state | Blocked wait bus_state

fun state_of :: "'a outcome \<Rightarrow> bus_state" where
  "state_of (Returned r w) = w"
| "state_of (Raised e w) = w"
| "state_of (Blocked b w) = w"

text \<open>
  \<^verbatim>\<open>Queue.put(item)\<close> with the default \<^verbatim>\<open>block=True, timeout=None\<close> waits while a bounded
  queue is full, then appends. \<^verbatim>\<open>Queue.get(timeout=t)\<close> removes the oldest item, and
  raises \<^verbatim>\<open>queue.Empty\<close> when none arrives.
\<close>

definition full :: "Queue \<Rightarrow> bool" where
  "full Q \<longleftrightarrow> 0 < maxsize Q \<and> maxsize Q \<le> int (length (items Q))"

definition put :: "bus_state \<Rightarrow> mailbox \<Rightarrow> Message \<Rightarrow> unit outcome" where
  "put w q m =
     (if full (queues w q) then Blocked (NotFull q) w
      else Returned () (w\<lparr>queues := (queues w)(q := (queues w q)\<lparr>items := items (queues w q) @ [m]\<rparr>)\<rparr>))"

definition get :: "bus_state \<Rightarrow> mailbox \<Rightarrow> Message outcome" where
  "get w q =
     (case items (queues w q) of
        [] \<Rightarrow> Raised Empty w
      | m # ms \<Rightarrow> Returned m (w\<lparr>queues := (queues w)(q := (queues w q)\<lparr>items := ms\<rparr>)\<rparr>))"

section \<open>The message bus\<close>

text \<open>
  \<^verbatim>\<open>with self.lock:\<close> waits for the lock, runs the body holding it, and releases it when the
  body returns or raises. A body that blocks keeps the lock.
\<close>

definition with_lock :: "(bus_state \<Rightarrow> 'a outcome) \<Rightarrow> bus_state \<Rightarrow> 'a outcome" where
  "with_lock body w =
     (if lock w then Blocked OnLock w
      else (case body (w\<lparr>lock := True\<rparr>) of
              Returned r w' \<Rightarrow> Returned r (w'\<lparr>lock := False\<rparr>)
            | Raised e w' \<Rightarrow> Raised e (w'\<lparr>lock := False\<rparr>)
            | Blocked b w' \<Rightarrow> Blocked b w'))"

text \<open>
  \<^verbatim>\<open>d[k]\<close> and \<^verbatim>\<open>d.get(k, default)\<close> on the subscribers dictionary: an unhashable key raises
  \<^verbatim>\<open>TypeError\<close> in both, a missing key raises \<^verbatim>\<open>KeyError\<close> in the first only.
  \<^verbatim>\<open>d[k].append(x)\<close> and \<^verbatim>\<open>d[k].remove(x)\<close> change the list stored under \<^verbatim>\<open>k\<close> in place.
\<close>

definition getitem :: "(MessageType \<times> 'v) list \<Rightarrow> type_arg \<Rightarrow> exn + 'v" where
  "getitem d k =
     (if \<not> hashable k then Inl TypeError
      else (case k of
              Member t \<Rightarrow> (case map_of d t of Some v \<Rightarrow> Inr v | None \<Rightarrow> Inl KeyError)
            | _ \<Rightarrow> Inl KeyError))"

definition dict_get :: "(MessageType \<times> 'v) list \<Rightarrow> type_arg \<Rightarrow> 'v \<Rightarrow> exn + 'v" where
  "dict_get d k dflt =
     (if \<not> hashable k then Inl TypeError
      else (case k of
              Member t \<Rightarrow> (case map_of d t of Some v \<Rightarrow> Inr v | None \<Rightarrow> Inr dflt)
            | _ \<Rightarrow> Inr dflt))"

definition modify_item ::
  "(MessageType \<times> 'v) list \<Rightarrow> type_arg \<Rightarrow> ('v \<Rightarrow> 'v) \<Rightarrow> exn + (MessageType \<times> 'v) list" where
  "modify_item d k f =
     (case getitem d k of
        Inl e \<Rightarrow> Inl e
      | Inr v \<Rightarrow> (case k of Member t \<Rightarrow> Inr (AList.update t (f v) d) | _ \<Rightarrow> Inl KeyError))"

text \<open>\<^verbatim>\<open>MessageBus.__init__\<close>: an empty subscriber list for every member, a free lock, count 0.\<close>

definition MessageBus :: "string \<Rightarrow> (mailbox \<Rightarrow> Queue) \<Rightarrow> bus_state" where
  "MessageBus nm h =
     \<lparr>name = nm,
      subscribers = fold (\<lambda>mtype d. AList.update mtype [] d) MessageType_members [],
      lock = False,
      message_count = 0,
      queues = h\<rparr>"

text \<open>
  \<^verbatim>\<open>MessageBus.subscribe\<close>. The list is looked up first, so a key that is not in the
  dictionary raises before anything changes; the diagnostic line reads \<^verbatim>\<open>msg_type.value\<close>
  after the append. Output to the terminal is not part of the state.
\<close>

definition subscribe_body :: "type_arg \<Rightarrow> mailbox \<Rightarrow> bus_state \<Rightarrow> unit outcome" where
  "subscribe_body mtype subscriber_queue w =
     (case getitem (subscribers w) mtype of
        Inl e \<Rightarrow> Raised e w
      | Inr subs \<Rightarrow>
          if subscriber_queue \<notin> set subs then
            (case modify_item (subscribers w) mtype (\<lambda>l. l @ [subscriber_queue]) of
               Inl e \<Rightarrow> Raised e w
             | Inr d \<Rightarrow>
                 (case value_attr mtype of
                    Inl e \<Rightarrow> Raised e (w\<lparr>subscribers := d\<rparr>)
                  | Inr v \<Rightarrow> Returned () (w\<lparr>subscribers := d\<rparr>)))
          else Returned () w)"

definition subscribe :: "bus_state \<Rightarrow> type_arg \<Rightarrow> mailbox \<Rightarrow> unit outcome" where
  "subscribe w mtype subscriber_queue = with_lock (subscribe_body mtype subscriber_queue) w"

text \<open>\<^verbatim>\<open>MessageBus.unsubscribe\<close>; \<^verbatim>\<open>list.remove\<close> deletes the first occurrence.\<close>

definition unsubscribe_body :: "type_arg \<Rightarrow> mailbox \<Rightarrow> bus_state \<Rightarrow> unit outcome" where
  "unsubscribe_body mtype subscriber_queue w =
     (case getitem (subscribers w) mtype of
        Inl e \<Rightarrow> Raised e w
      | Inr subs \<Rightarrow>
          if subscriber_queue \<in> set subs then
            (case modify_item (subscribers w) mtype (remove1 subscriber_queue) of
               Inl e \<Rightarrow> Raised e w
             | Inr d \<Rightarrow> Returned () (w\<lparr>subscribers := d\<rparr>))
          else Returned () w)"

definition unsubscribe :: "bus_state \<Rightarrow> type_arg \<Rightarrow> mailbox \<Rightarrow> unit outcome" where
  "unsubscribe w mtype subscriber_queue = with_lock (unsubscribe_body mtype subscriber_queue) w"

text \<open>
  \<^verbatim>\<open>MessageBus.publish\<close>. The whole body is inside \<^verbatim>\<open>with self.lock:\<close>: the increment, the
  lookup with default \<^verbatim>\<open>[]\<close>, the diagnostic line (which formats the message with
  \<^verbatim>\<open>__str__\<close>) and the loop that puts the message into each subscriber's queue.
\<close>

fun put_all :: "bus_state \<Rightarrow> mailbox list \<Rightarrow> Message \<Rightarrow> unit outcome" where
  "put_all w [] message = Returned () w"
| "put_all w (sub_queue # rest) message =
     (case put w sub_queue message of
        Returned u w' \<Rightarrow> put_all w' rest message
      | Raised e w' \<Rightarrow> Raised e w'
      | Blocked b w' \<Rightarrow> Blocked b w')"

definition publish_body :: "Message \<Rightarrow> bus_state \<Rightarrow> unit outcome" where
  "publish_body message w =
     (let w1 = w\<lparr>message_count := message_count w + 1\<rparr> in
      case dict_get (subscribers w1) (msg_type message) [] of
        Inl e \<Rightarrow> Raised e w1
      | Inr subs \<Rightarrow>
          (case str_Message message of
             Inl e \<Rightarrow> Raised e w1
           | Inr line \<Rightarrow> put_all w1 subs message))"

definition publish :: "bus_state \<Rightarrow> Message \<Rightarrow> unit outcome" where
  "publish w message = with_lock (publish_body message) w"

text \<open>
  \<^verbatim>\<open>MessageBus.get_stats\<close>: a new dictionary from each type's label to the length of its
  subscriber list. Nothing else is returned.
\<close>

definition get_stats_body :: "bus_state \<Rightarrow> (string \<times> int) list outcome" where
  "get_stats_body w =
     Returned
       (fold (\<lambda>(mtype, subs) stats. AList.update (MessageType_value mtype) (int (length subs)) stats)
          (subscribers w) [])
       w"

definition get_stats :: "bus_state \<Rightarrow> (string \<times> int) list outcome" where
  "get_stats w = with_lock get_stats_body w"

section \<open>Sequences of calls\<close>

text \<open>
  The subscriber list of a type as a publish sees it (\<^verbatim>\<open>.get(msg_type, [])\<close>).
\<close>

definition subs_of :: "bus_state \<Rightarrow> MessageType \<Rightarrow> mailbox list" where
  "subs_of w t = (case map_of (subscribers w) t of Some qs \<Rightarrow> qs | None \<Rightarrow> [])"

text \<open>
  Callers reach the bus through its four methods, and a consumer reaches its own mailbox
  through \<^verbatim>\<open>get\<close>. A run performs calls one after the other. A call that raises leaves
  the exception with its caller and the run goes on from the state it left; a call that
  blocks ends the run without a result.
\<close>

datatype call =
  Subscribe type_arg mailbox
| Unsubscribe type_arg mailbox
| Publish Message
| Get_stats
| Get mailbox

datatype ret = RNone | RStats "(string \<times> int) list" | RMessage Message

datatype reply = Ret ret | Exc exn

fun with_ret :: "('a \<Rightarrow> ret) \<Rightarrow> 'a outcome \<Rightarrow> ret outcome" where
  "with_ret f (Returned r w) = Returned (f r) w"
| "with_ret f (Raised e w) = Raised e w"
| "with_ret f (Blocked b w) = Blocked b w"

fun exec_call :: "bus_state \<Rightarrow> call \<Rightarrow> ret outcome" where
  "exec_call w (Subscribe t q) = with_ret (\<lambda>u. RNone) (subscribe w t q)"
| "exec_call w (Unsubscribe t q) = with_ret (\<lambda>u. RNone) (unsubscribe w t q)"
| "exec_call w (Publish m) = with_ret (\<lambda>u. RNone) (publish w m)"
| "exec_call w Get_stats = with_ret RStats (get_stats w)"
| "exec_call w (Get q) = with_ret RMessage (get w q)"

fun run :: "bus_state \<Rightarrow> call list \<Rightarrow> (reply list \<times> bus_state) option" where
  "run w [] = Some ([], w)"
| "run w (c # cs) =
     (case exec_call w c of
        Returned r w' \<Rightarrow> map_option (\<lambda>(rs, w''). (Ret r # rs, w'')) (run w' cs)
      | Raised e w' \<Rightarrow> map_option (\<lambda>(rs, w''). (Exc e # rs, w'')) (run w' cs)
      | Blocked b w' \<Rightarrow> None)"

text \<open>The messages a consumer took out of mailbox \<open>q\<close> during a run, in order.\<close>

fun received :: "mailbox \<Rightarrow> call list \<Rightarrow> reply list \<Rightarrow> Message list" where
  "received q (Get q' # cs) (Ret (RMessage m) # rs) =
     (if q' = q then m # received q cs rs else received q cs rs)"
| "received q (c # cs) (r # rs) = received q cs rs"
| "received q cs rs = []"

text \<open>The messages of type \<open>t\<close> published during a run, in order.\<close>

fun published :: "MessageType \<Rightarrow> call list \<Rightarrow> Message list" where
  "published t [] = []"
| "published t (Publish m # cs) =
     (if msg_type m = Member t then m # published t cs else published t cs)"
| "published t (c # cs) = published t cs"

definition of_type :: "MessageType \<Rightarrow> Message \<Rightarrow> bool" where
  "of_type t m \<longleftrightarrow> msg_type m = Member t"

fun is_publish :: "call \<Rightarrow> bool" where
  "is_publish (Publish m) = True"
| "is_publish c = False"

text \<open>
  The registry invariant: the dictionary has exactly the five members as keys, in
  definition order, and no list holds a mailbox twice.
\<close>

definition bus_inv :: "bus_state \<Rightarrow> bool" where
  "bus_inv w \<longleftrightarrow>
     map fst (subscribers w) = MessageType_members \<and> (\<forall>t. distinct (subs_of w t))"

text \<open>The value a call returned, if it returned.\<close>

fun returned :: "'a outcome \<Rightarrow> 'a option" where
  "returned (Returned r w) = Some r"
| "returned (Raised e w) = None"
| "returned (Blocked b w) = None"

text \<open>The mailboxes a publish of \<open>m\<close> puts into: the list found by \<^verbatim>\<open>.get(m.msg_type, [])\<close>.\<close>

definition targets :: "bus_state \<Rightarrow> Message \<Rightarrow> mailbox list" where
  "targets w m = (case msg_type m of Member t \<Rightarrow> subs_of w t | _ \<Rightarrow> [])"

text \<open>
  What a completed fan-out of \<open>m\<close> to the mailboxes \<open>qs\<close> amounts to: each of them has
  \<open>m\<close> appended once to its contents, every other mailbox and the bus are as before.
\<close>

definition deliver :: "bus_state \<Rightarrow> mailbox list \<Rightarrow> Message \<Rightarrow> bus_state" where
  "deliver w qs m =
     w\<lparr>queues := (\<lambda>q. if q \<in> set qs then (queues w q)\<lparr>items := items (queues w q) @ [m]\<rparr>
                        else queues w q)\<rparr>"

section \<open>Interleaved execution\<close>

text \<open>
  In a run above every call is one step. That is exact for subscribe, unsubscribe and
  get_stats, whose bodies hold the lock from start to end and never wait. A publish also
  holds the lock throughout, but its loop calls \<^verbatim>\<open>put\<close> once per mailbox, each of which
  may wait, and consumers call \<^verbatim>\<open>get\<close> on their mailboxes without the lock. The finer
  steps are therefore: a caller performs a whole subscribe, unsubscribe, get_stats or
  \<^verbatim>\<open>get\<close>; a publisher enters its critical section (increment, lookup, diagnostic line);
  the publisher inside the critical section performs the next \<^verbatim>\<open>put\<close> of its loop, or,
  the loop being over, leaves and returns. A configuration is the state together with
  the publish in progress, if any: its message and the mailboxes still to be served. A
  step that has to wait is not enabled.
\<close>

type_synonym conf = "bus_state \<times> (Message \<times> mailbox list) option"

datatype event = Enter call | Deliver

definition enter_publish :: "bus_state \<Rightarrow> Message \<Rightarrow> reply option \<times> conf" where
  "enter_publish w message =
     (let w1 = w\<lparr>lock := True, message_count := message_count w + 1\<rparr> in
      case dict_get (subscribers w1) (msg_type message) [] of
        Inl e \<Rightarrow> (Some (Exc e), w1\<lparr>lock := False\<rparr>, None)
      | Inr subs \<Rightarrow>
          (case str_Message message of
             Inl e \<Rightarrow> (Some (Exc e), w1\<lparr>lock := False\<rparr>, None)
           | Inr line \<Rightarrow> (None, w1, Some (message, subs))))"

fun step :: "conf \<Rightarrow> event \<Rightarrow> (reply option \<times> conf) option" where
  "step (w, p) (Enter (Publish m)) = (if lock w then None else Some (enter_publish w m))"
| "step (w, p) (Enter c) =
     (case exec_call w c of
        Returned r w' \<Rightarrow> Some (Some (Ret r), w', p)
      | Raised e w' \<Rightarrow> Some (Some (Exc e), w', p)
      | Blocked b w' \<Rightarrow> None)"
| "step (w, None) Deliver = None"
| "step (w, Some (m, [])) Deliver = Some (Some (Ret RNone), w\<lparr>lock := False\<rparr>, None)"
| "step (w, Some (m, sub_queue # rest)) Deliver =
     (case put w sub_queue m of
        Returned u w' \<Rightarrow> Some (None, w', Some (m, rest))
      | Raised e w' \<Rightarrow> None
      | Blocked b w' \<Rightarrow> None)"

fun exec :: "conf \<Rightarrow> event list \<Rightarrow> (reply option list \<times> conf) option" where
  "exec c [] = Some ([], c)"
| "exec c (e # es) =
     (case step c e of
        None \<Rightarrow> None
      | Some (r, c') \<Rightarrow> map_option (\<lambda>(rs, c''). (r # rs, c'')) (exec c' es))"

text \<open>
  What the consumer of \<open>q\<close> took out during an execution; the messages of type \<open>t\<close> in the
  order in which their publishes entered the critical section; and the message that a
  publish in progress has yet to put into \<open>q\<close>.
\<close>

fun taken :: "mailbox \<Rightarrow> event list \<Rightarrow> reply option list \<Rightarrow> Message list" where
  "taken q (Enter (Get q') # es) (Some (Ret (RMessage m)) # rs) =
     (if q' = q then m # taken q es rs else taken q es rs)"
| "taken q (e # es) (r # rs) = taken q es rs"
| "taken q es rs = []"

fun entered :: "MessageType \<Rightarrow> event list \<Rightarrow> Message list" where
  "entered t [] = []"
| "entered t (Enter (Publish m) # es) =
     (if msg_type m = Member t then m # entered t es else entered t es)"
| "entered t (e # es) = entered t es"

definition owed :: "MessageType \<Rightarrow> mailbox \<Rightarrow> (Message \<times> mailbox list) option \<Rightarrow> Message list" where
  "owed t q p =
     (case p of
        None \<Rightarrow> []
      | Some (m, qs) \<Rightarrow> if msg_type m = Member t \<and> q \<in> set qs then [m] else [])"

text \<open>
  A configuration is well-formed when the registry invariant holds, the lock is held
  exactly while a publish is in progress, and the mailboxes still to be served are
  pairwise different.
\<close>

definition conf_inv :: "conf \<Rightarrow> bool" where
  "conf_inv c \<longleftrightarrow>
     bus_inv (fst c) \<and>
     (case snd c of None \<Rightarrow> \<not> lock (fst c) | Some (m, qs) \<Rightarrow> lock (fst c) \<and> distinct qs)"

section \<open>Example states\<close>

text \<open>
  The stores, messages, states and sequences at which the theorems below are evaluated.
  In \<open>bounded_queues n\<close> every mailbox is an empty \<^verbatim>\<open>queue.Queue(maxsize=n)\<close>,
  unbounded for \<open>n = 0\<close>. The messages are two well-formed ones, one whose type is a
  member of another enumeration, and one whose type is a plain string.
\<close>

definition bounded_queues :: "int \<Rightarrow> mailbox \<Rightarrow> Queue" where
  "bounded_queues n = (\<lambda>q. \<lparr>maxsize = n, items = []\<rparr>)"

definition order_msg :: "string \<Rightarrow> Message" where
  "order_msg c = \<lparr>msg_type = Member ORDER, content = c, sender = ''A'', timestamp = 0\<rparr>"

definition payment_msg :: "string \<Rightarrow> Message" where
  "payment_msg c = \<lparr>msg_type = Member PAYMENT, content = c, sender = ''B'', timestamp = 0\<rparr>"

definition foreign_msg :: Message where
  "foreign_msg = \<lparr>msg_type = OtherEnum ''refund'', content = ''r1'', sender = ''A'', timestamp = 0\<rparr>"

definition string_msg :: Message where
  "string_msg = \<lparr>msg_type = PyStr ''ORDER'', content = ''s1'', sender = ''A'', timestamp = 0\<rparr>"

text \<open>
  \<open>one_subscriber n\<close> is a new bus on the store \<open>bounded_queues n\<close> after
  \<^verbatim>\<open>subscribe(ORDER, mailbox 0)\<close>; \<open>full_mailbox\<close> is that bus with capacity 1 after one
  order was published and nobody took it out; \<open>one_delivered\<close> is that bus with unbounded
  mailboxes after one order was published.
\<close>

definition one_subscriber :: "int \<Rightarrow> bus_state" where
  "one_subscriber n = state_of (subscribe (MessageBus ''bus'' (bounded_queues n)) (Member ORDER) 0)"

definition full_mailbox :: bus_state where
  "full_mailbox = state_of (publish (one_subscriber 1) (order_msg ''o1''))"

definition one_delivered :: bus_state where
  "one_delivered =
     (one_subscriber 0)\<lparr>message_count := 1,
        queues := (bounded_queues 0)(0 := \<lparr>maxsize = 0, items = [order_msg ''o1'']\<rparr>)\<rparr>"

text \<open>
  A bus whose mailbox 0 is subscribed to \<^verbatim>\<open>ORDER\<close> and \<^verbatim>\<open>PAYMENT\<close>; a sequence of calls
  in which two orders and a payment are published and the consumer of mailbox 0 calls
  \<^verbatim>\<open>get\<close> four times; and the state at its end.
\<close>

definition two_types :: bus_state where
  "two_types = state_of (subscribe (one_subscriber 0) (Member PAYMENT) 0)"

definition order_scenario :: "call list" where
  "order_scenario =
     [Publish (order_msg ''o1''), Publish (payment_msg ''p1''), Get 0,
      Publish (order_msg ''o2''), Get 0, Get 0, Get 0]"

definition order_replies :: "reply list" where
  "order_replies =
     [Ret RNone, Ret RNone, Ret (RMessage (order_msg ''o1'')), Ret RNone,
      Ret (RMessage (payment_msg ''p1'')), Ret (RMessage (order_msg ''o2'')), Exc Empty]"

definition drained :: bus_state where
  "drained =
     two_types\<lparr>message_count := 3,
       queues := (bounded_queues 0)(0 := \<lparr>maxsize = 0, items = []\<rparr>)\<rparr>"

text \<open>
  A bus with mailboxes 0 and 1 subscribed to \<^verbatim>\<open>ORDER\<close>, and an interleaving in which the
  consumer of mailbox 0 takes the first order while its publisher is still inside the
  loop, and a second publish has entered the critical section and served nobody yet.
\<close>

definition two_subscribers :: bus_state where
  "two_subscribers = state_of (subscribe (one_subscriber 0) (Member ORDER) 1)"

definition interleaving :: "event list" where
  "interleaving =
     [Enter (Publish (order_msg ''o1'')), Deliver, Enter (Get 0), Deliver, Deliver,
      Enter (Publish (order_msg ''o2''))]"

definition interleaving_replies :: "reply option list" where
  "interleaving_replies =
     [None, None, Some (Ret (RMessage (order_msg ''o1''))), None, Some (Ret RNone), None]"

definition midway :: conf where
  "midway =
     (two_subscribers\<lparr>lock := True, message_count := 2,
        queues := (bounded_queues 0)
          (0 := \<lparr>maxsize = 0, items = []\<rparr>, 1 := \<lparr>maxsize = 0, items = [order_msg ''o1'']\<rparr>)\<rparr>,
      Some (order_msg ''o2'', [0, 1]))"

section \<open>Basic facts\<close>

lemma init_subscribers:
  "subscribers (MessageBus nm h) =
     [(ORDER, []), (PAYMENT, []), (INVENTORY, []), (SHIPPING, []), (NOTIFICATION, [])]"
  by (simp add: MessageBus_def MessageType_members_def)

lemma unlock_free: "\<not> lock w \<Longrightarrow> w\<lparr>lock := False\<rparr> = w"
  by (cases w) simp

lemma relock: "(w\<lparr>lock := True\<rparr>)\<lparr>lock := False\<rparr> = w\<lparr>lock := False\<rparr>"
  by simp

lemma with_lock_held: "lock w \<Longrightarrow> with_lock body w = Blocked OnLock w"
  by (simp add: with_lock_def)

lemma map_of_members:
  assumes "map fst d = MessageType_members"
  shows "\<exists>v. map_of d t = Some v"
proof -
  have "t \<in> set (map fst d)"
    using assms by (cases t) (simp_all add: MessageType_members_def)
  then have "t \<in> fst ` set d" by simp
  then show ?thesis
    by (metis domD dom_map_of_conv_image_fst)
qed

lemma inv_lookup: "bus_inv w \<Longrightarrow> map_of (subscribers w) t = Some (subs_of w t)"
  using map_of_members [of "subscribers w" t] by (auto simp: bus_inv_def subs_of_def)

lemma subscribe_member:
  assumes "\<not> lock w" and "map_of (subscribers w) t = Some qs"
  shows "subscribe w (Member t) q =
           Returned () (if q \<in> set qs then w
                        else w\<lparr>subscribers := AList.update t (qs @ [q]) (subscribers w)\<rparr>)"
  using assms
  by (simp add: subscribe_def with_lock_def subscribe_body_def getitem_def modify_item_def unlock_free)

lemma unsubscribe_member:
  assumes "\<not> lock w" and "map_of (subscribers w) t = Some qs"
  shows "unsubscribe w (Member t) q =
           Returned () (if q \<in> set qs
                        then w\<lparr>subscribers := AList.update t (remove1 q qs) (subscribers w)\<rparr>
                        else w)"
  using assms
  by (simp add: unsubscribe_def with_lock_def unsubscribe_body_def getitem_def modify_item_def unlock_free)

lemma subscribe_nonmember:
  assumes "\<not> lock w" and "\<forall>t. x \<noteq> Member t"
  shows "subscribe w x q = Raised (if hashable x then KeyError else TypeError) w"
  using assms
  by (cases x) (simp_all add: subscribe_def with_lock_def subscribe_body_def getitem_def unlock_free)

lemma unsubscribe_nonmember:
  assumes "\<not> lock w" and "\<forall>t. x \<noteq> Member t"
  shows "unsubscribe w x q = Raised (if hashable x then KeyError else TypeError) w"
  using assms
  by (cases x) (simp_all add: unsubscribe_def with_lock_def unsubscribe_body_def getitem_def unlock_free)

lemma subs_of_update:
  "subs_of (w\<lparr>subscribers := AList.update t v (subscribers w)\<rparr>) t' =
     (if t' = t then v else subs_of w t')"
  by (simp add: subs_of_def update_conv')

lemma keys_update:
  "map_of d t = Some v \<Longrightarrow> map fst (AList.update t v' d) = map fst d"
  by (simp add: update_keys domI dom_map_of_conv_image_fst [symmetric])

lemma bus_inv_init: "bus_inv (MessageBus nm h)"
  unfolding bus_inv_def subs_of_def init_subscribers
  by (simp add: MessageType_members_def)

section \<open>The loop of publish\<close>

lemmas bus_defs =
  subscribe_def unsubscribe_def publish_def get_stats_def with_lock_def
  subscribe_body_def unsubscribe_body_def publish_body_def get_stats_body_def
  getitem_def dict_get_def modify_item_def str_Message_def put_def get_def full_def
  MessageBus_def MessageType_members_def

lemma deliver_Nil: "deliver w [] m = w"
  by (simp add: deliver_def)

lemma deliver_lock: "deliver (w\<lparr>lock := b\<rparr>) qs m = (deliver w qs m)\<lparr>lock := b\<rparr>"
  by (simp add: deliver_def cong: if_cong)

lemma deliver_message_count:
  "deliver (w\<lparr>message_count := c\<rparr>) qs m = (deliver w qs m)\<lparr>message_count := c\<rparr>"
  by (simp add: deliver_def cong: if_cong)

lemma lock_deliver: "lock (deliver w qs m) = lock w"
  by (simp add: deliver_def)

lemma put_all_deliver:
  "distinct qs \<Longrightarrow> \<forall>q\<in>set qs. \<not> full (queues w q) \<Longrightarrow>
     put_all w qs m = Returned () (deliver w qs m)"
proof (induction qs arbitrary: w)
  case Nil
  show ?case by (simp add: deliver_Nil)
next
  case (Cons q qs)
  let ?w1 = "w\<lparr>queues := (queues w)(q := (queues w q)\<lparr>items := items (queues w q) @ [m]\<rparr>)\<rparr>"
  have step: "put w q m = Returned () ?w1"
    using Cons.prems(2) by (simp add: put_def)
  have room: "\<forall>x\<in>set qs. \<not> full (queues ?w1 x)"
    using Cons.prems by auto
  have "put_all ?w1 qs m = Returned () (deliver ?w1 qs m)"
    using Cons.IH [OF _ room] Cons.prems(1) by simp
  moreover have "deliver ?w1 qs m = deliver w (q # qs) m"
    using Cons.prems(1) by (auto simp: deliver_def fun_eq_iff)
  ultimately show ?case
    by (simp add: step)
qed

lemma put_all_blocks:
  "distinct (qs1 @ [q]) \<Longrightarrow> \<forall>x\<in>set qs1. \<not> full (queues w x) \<Longrightarrow> full (queues w q) \<Longrightarrow>
     put_all w (qs1 @ q # qs2) m = Blocked (NotFull q) (deliver w qs1 m)"
proof (induction qs1 arbitrary: w)
  case Nil
  then show ?case by (simp add: put_def deliver_Nil)
next
  case (Cons a qs1)
  let ?w1 = "w\<lparr>queues := (queues w)(a := (queues w a)\<lparr>items := items (queues w a) @ [m]\<rparr>)\<rparr>"
  have step: "put w a m = Returned () ?w1"
    using Cons.prems(2) by (simp add: put_def)
  have room: "\<forall>x\<in>set qs1. \<not> full (queues ?w1 x)" and still: "full (queues ?w1 q)"
    using Cons.prems by auto
  have "put_all ?w1 (qs1 @ q # qs2) m = Blocked (NotFull q) (deliver ?w1 qs1 m)"
    using Cons.IH [OF _ room still] Cons.prems(1) by simp
  moreover have "deliver ?w1 qs1 m = deliver w (a # qs1) m"
    using Cons.prems(1) by (auto simp: deliver_def fun_eq_iff)
  ultimately show ?case
    by (simp add: step)
qed

lemma publish_member:
  assumes "\<not> lock w" and "msg_type m = Member t"
  shows "publish w m =
           (case put_all (w\<lparr>lock := True, message_count := message_count w + 1\<rparr>) (subs_of w t) m of
              Returned r w' \<Rightarrow> Returned r (w'\<lparr>lock := False\<rparr>)
            | Raised e w' \<Rightarrow> Raised e (w'\<lparr>lock := False\<rparr>)
            | Blocked b w' \<Rightarrow> Blocked b w')"
  using assms
  by (simp add: publish_def with_lock_def publish_body_def dict_get_def str_Message_def subs_of_def
        Let_def split: option.splits)

lemma deliver_changed:
  "{q. queues (deliver w qs m) q \<noteq> queues w q} = set qs"
proof -
  have "(queues w q)\<lparr>items := items (queues w q) @ [m]\<rparr> \<noteq> queues w q" for q
  proof
    assume "(queues w q)\<lparr>items := items (queues w q) @ [m]\<rparr> = queues w q"
    then have "items ((queues w q)\<lparr>items := items (queues w q) @ [m]\<rparr>) = items (queues w q)"
      by simp
    then show False by simp
  qed
  then show ?thesis
    by (auto simp: deliver_def)
qed

section \<open>The statistics dictionary\<close>

lemma subscribers_shape:
  assumes "map fst d = MessageType_members"
  shows "\<exists>a b c e f. d = [(ORDER, a), (PAYMENT, b), (INVENTORY, c), (SHIPPING, e), (NOTIFICATION, f)]"
proof -
  from assms obtain p1 p2 p3 p4 p5 where d: "d = [p1, p2, p3, p4, p5]"
    and k: "fst p1 = ORDER" "fst p2 = PAYMENT" "fst p3 = INVENTORY" "fst p4 = SHIPPING"
      "fst p5 = NOTIFICATION"
    by (auto simp: MessageType_members_def map_eq_Cons_conv)
  then show ?thesis
    by (cases p1, cases p2, cases p3, cases p4, cases p5) simp
qed

lemma get_stats_value:
  assumes "bus_inv w" and "\<not> lock w"
  shows "get_stats w =
           Returned (map (\<lambda>t. (MessageType_value t, int (length (subs_of w t)))) MessageType_members) w"
proof -
  from assms(1) obtain a b c e f where
    d: "subscribers w = [(ORDER, a), (PAYMENT, b), (INVENTORY, c), (SHIPPING, e), (NOTIFICATION, f)]"
    using subscribers_shape [of "subscribers w"] by (auto simp: bus_inv_def)
  show ?thesis
    using assms(2)
    by (simp add: get_stats_def with_lock_def get_stats_body_def d subs_of_def
          MessageType_members_def unlock_free)
qed

section \<open>Publish of a message whose type is not a member\<close>

lemma publish_nonmember:
  assumes "\<not> lock w" and "\<forall>t. msg_type m \<noteq> Member t"
  shows "publish w m =
           (if \<not> hashable (msg_type m) then Raised TypeError (w\<lparr>message_count := message_count w + 1\<rparr>)
            else (case value_attr (msg_type m) of
                    Inl e \<Rightarrow> Raised e (w\<lparr>message_count := message_count w + 1\<rparr>)
                  | Inr v \<Rightarrow> Returned () (w\<lparr>message_count := message_count w + 1\<rparr>)))"
  using assms
  by (cases "msg_type m")
     (simp_all add: publish_def with_lock_def publish_body_def dict_get_def str_Message_def
        Let_def unlock_free)

section \<open>What a call leaves unchanged\<close>

lemma put_frame:
  "name (state_of (put w q m)) = name w"
  "subscribers (state_of (put w q m)) = subscribers w"
  "lock (state_of (put w q m)) = lock w"
  "message_count (state_of (put w q m)) = message_count w"
  by (simp_all add: put_def)

lemma put_all_frame:
  "name (state_of (put_all w qs m)) = name w
   \<and> subscribers (state_of (put_all w qs m)) = subscribers w
   \<and> lock (state_of (put_all w qs m)) = lock w
   \<and> message_count (state_of (put_all w qs m)) = message_count w"
proof (induction qs arbitrary: w)
  case Nil
  show ?case by simp
next
  case (Cons q qs)
  show ?case
  proof (cases "full (queues w q)")
    case True
    then show ?thesis by (simp add: put_def)
  next
    case False
    then show ?thesis
      using Cons.IH [of "w\<lparr>queues := (queues w)(q := (queues w q)\<lparr>items := items (queues w q) @ [m]\<rparr>)\<rparr>"]
      by (simp add: put_def)
  qed
qed

lemma put_all_not_raised: "put_all w qs m \<noteq> Raised e w'"
proof (induction qs arbitrary: w)
  case Nil
  show ?case by simp
next
  case (Cons q qs)
  show ?case
    using Cons.IH by (simp add: put_def)
qed

lemma put_all_queues:
  "(q \<notin> set qs \<longrightarrow> queues (state_of (put_all w qs m)) q = queues w q)
   \<and> maxsize (queues (state_of (put_all w qs m)) q) = maxsize (queues w q)
   \<and> (\<exists>k. items (queues (state_of (put_all w qs m)) q) = items (queues w q) @ replicate k m)"
proof (induction qs arbitrary: w)
  case Nil
  show ?case by simp
next
  case (Cons a qs)
  show ?case
  proof (cases "full (queues w a)")
    case True
    then show ?thesis by (simp add: put_def)
  next
    case False
    let ?w1 = "w\<lparr>queues := (queues w)(a := (queues w a)\<lparr>items := items (queues w a) @ [m]\<rparr>)\<rparr>"
    have eq: "put_all w (a # qs) m = put_all ?w1 qs m"
      using False by (simp add: put_def)
    from Cons.IH [of ?w1] obtain k where
      ih1: "q \<notin> set qs \<longrightarrow> queues (state_of (put_all ?w1 qs m)) q = queues ?w1 q" and
      ih2: "maxsize (queues (state_of (put_all ?w1 qs m)) q) = maxsize (queues ?w1 q)" and
      ih3: "items (queues (state_of (put_all ?w1 qs m)) q) = items (queues ?w1 q) @ replicate k m"
      by blast
    have "\<exists>j. items (queues ?w1 q) @ replicate k m = items (queues w q) @ replicate j m"
    proof (cases "q = a")
      case True
      then have "items (queues ?w1 q) @ replicate k m = items (queues w q) @ replicate (Suc k) m"
        by simp
      then show ?thesis ..
    next
      case False
      then have "items (queues ?w1 q) @ replicate k m = items (queues w q) @ replicate k m"
        by simp
      then show ?thesis ..
    qed
    with ih1 ih2 ih3 show ?thesis
      unfolding eq by auto
  qed
qed

text \<open>What each bus operation does to the fields of the state, whatever its outcome.\<close>

lemma subscribe_frame:
  "name (state_of (subscribe w x q)) = name w"
  "message_count (state_of (subscribe w x q)) = message_count w"
  "queues (state_of (subscribe w x q)) = queues w"
  by (simp_all add: subscribe_def with_lock_def subscribe_body_def modify_item_def
        split: sum.splits type_arg.splits)

lemma unsubscribe_frame:
  "name (state_of (unsubscribe w x q)) = name w"
  "message_count (state_of (unsubscribe w x q)) = message_count w"
  "queues (state_of (unsubscribe w x q)) = queues w"
  by (simp_all add: unsubscribe_def with_lock_def unsubscribe_body_def modify_item_def
        split: sum.splits type_arg.splits)

lemma get_stats_frame: "state_of (get_stats w) = w"
  by (simp add: get_stats_def with_lock_def get_stats_body_def unlock_free)

lemma get_frame:
  "name (state_of (get w q)) = name w"
  "subscribers (state_of (get w q)) = subscribers w"
  "lock (state_of (get w q)) = lock w"
  "message_count (state_of (get w q)) = message_count w"
  by (simp_all add: get_def split: list.splits)

lemma state_of_with_lock:
  "state_of (with_lock body w) =
     (if lock w then w
      else (case body (w\<lparr>lock := True\<rparr>) of
              Returned r w' \<Rightarrow> w'\<lparr>lock := False\<rparr>
            | Raised e w' \<Rightarrow> w'\<lparr>lock := False\<rparr>
            | Blocked b w' \<Rightarrow> w'))"
  by (simp add: with_lock_def split: outcome.splits)

lemma publish_body_frame:
  "name (state_of (publish_body m w)) = name w
   \<and> subscribers (state_of (publish_body m w)) = subscribers w
   \<and> lock (state_of (publish_body m w)) = lock w
   \<and> message_count (state_of (publish_body m w)) = message_count w + 1"
  using put_all_frame [of "w\<lparr>message_count := message_count w + 1\<rparr>" _ m]
  by (simp add: publish_body_def Let_def split: sum.splits)

lemma publish_frame:
  "name (state_of (publish w m)) = name w"
  "subscribers (state_of (publish w m)) = subscribers w"
  "message_count (state_of (publish w m)) = (if lock w then message_count w else message_count w + 1)"
proof -
  show "name (state_of (publish w m)) = name w"
    using publish_body_frame [of m "w\<lparr>lock := True\<rparr>"]
    by (cases "publish_body m (w\<lparr>lock := True\<rparr>)") (auto simp: publish_def state_of_with_lock)
  show "subscribers (state_of (publish w m)) = subscribers w"
    using publish_body_frame [of m "w\<lparr>lock := True\<rparr>"]
    by (cases "publish_body m (w\<lparr>lock := True\<rparr>)") (auto simp: publish_def state_of_with_lock)
  show "message_count (state_of (publish w m)) = (if lock w then message_count w else message_count w + 1)"
    using publish_body_frame [of m "w\<lparr>lock := True\<rparr>"]
    by (cases "publish_body m (w\<lparr>lock := True\<rparr>)") (auto simp: publish_def state_of_with_lock)
qed

text \<open>A call that returns or raises was made with the lock free and leaves it free.\<close>

lemma with_lock_done:
  assumes "with_lock body w = Returned r w' \<or> with_lock body w = Raised e w'"
  shows "\<not> lock w \<and> \<not> lock w'"
  using assms by (auto simp: with_lock_def split: if_splits outcome.splits)

lemma exec_call_done:
  assumes "exec_call w c = Returned r w' \<or> exec_call w c = Raised e w'" and "\<not> lock w"
  shows "\<not> lock w'"
proof (cases c)
  case (Subscribe x q)
  then have "with_lock (subscribe_body x q) w = Returned () w' \<or> with_lock (subscribe_body x q) w = Raised e w'"
    using assms(1) by (cases "subscribe w x q") (auto simp: subscribe_def)
  then show ?thesis using with_lock_done [of "subscribe_body x q" w "()" w' e] by simp
next
  case (Unsubscribe x q)
  then have "with_lock (unsubscribe_body x q) w = Returned () w' \<or> with_lock (unsubscribe_body x q) w = Raised e w'"
    using assms(1) by (cases "unsubscribe w x q") (auto simp: unsubscribe_def)
  then show ?thesis using with_lock_done [of "unsubscribe_body x q" w "()" w' e] by simp
next
  case (Publish m)
  then have "with_lock (publish_body m) w = Returned () w' \<or> with_lock (publish_body m) w = Raised e w'"
    using assms(1) by (cases "publish w m") (auto simp: publish_def)
  then show ?thesis using with_lock_done [of "publish_body m" w "()" w' e] by simp
next
  case Get_stats
  then have "state_of (get_stats w) = w'"
    using assms(1) by (cases "get_stats w") auto
  then show ?thesis using assms(2) by (simp add: get_stats_frame)
next
  case (Get q)
  then have "state_of (get w q) = w'"
    using assms(1) by (cases "get w q") auto
  then show ?thesis using assms(2) get_frame(3) [of w q] by simp
qed

lemma state_of_with_ret: "state_of (with_ret f out) = state_of out"
  by (cases out) simp_all

lemma exec_call_count:
  assumes "\<not> lock w"
  shows "message_count (state_of (exec_call w c)) =
           message_count w + (if is_publish c then 1 else 0)"
  using assms
  by (cases c)
     (simp_all add: state_of_with_ret subscribe_frame unsubscribe_frame publish_frame
        get_stats_frame get_frame)

lemma run_Cons_Some:
  assumes "run w (c # cs) = Some (rs, w'')"
  obtains r rs' where "rs = r # rs'" and "run (state_of (exec_call w c)) cs = Some (rs', w'')"
    and "(\<exists>v. exec_call w c = Returned v (state_of (exec_call w c)) \<and> r = Ret v)
         \<or> (\<exists>e. exec_call w c = Raised e (state_of (exec_call w c)) \<and> r = Exc e)"
  using assms by (cases "exec_call w c") auto

lemma run_count:
  "\<not> lock w \<Longrightarrow> run w cs = Some (rs, w') \<Longrightarrow>
     message_count w' = message_count w + int (length (filter is_publish cs))"
proof (induction cs arbitrary: w rs)
  case Nil
  then show ?case by simp
next
  case (Cons c cs)
  from Cons.prems(2) obtain r rs' where
    rest: "run (state_of (exec_call w c)) cs = Some (rs', w')" and
    fin: "(\<exists>v. exec_call w c = Returned v (state_of (exec_call w c)) \<and> r = Ret v)
         \<or> (\<exists>e. exec_call w c = Raised e (state_of (exec_call w c)) \<and> r = Exc e)"
    by (rule run_Cons_Some)
  from fin have free: "\<not> lock (state_of (exec_call w c))"
    using exec_call_done [OF _ Cons.prems(1)] by blast
  from Cons.IH [OF free rest] exec_call_count [OF Cons.prems(1), of c]
  show ?case by simp
qed

section \<open>The mailboxes after a publish\<close>

lemma state_of_unlock_queues:
  "queues (state_of (case out of Returned r w' \<Rightarrow> Returned r (w'\<lparr>lock := False\<rparr>)
                      | Raised e w' \<Rightarrow> Raised e (w'\<lparr>lock := False\<rparr>)
                      | Blocked b w' \<Rightarrow> Blocked b w')) = queues (state_of out)"
  by (cases out) simp_all

lemma publish_queues:
  assumes "\<not> lock w"
  shows "queues (state_of (publish w m)) =
           queues (state_of (put_all (w\<lparr>lock := True, message_count := message_count w + 1\<rparr>)
                     (targets w m) m))"
proof (cases "\<exists>t. msg_type m = Member t")
  case True
  then obtain t where t: "msg_type m = Member t" ..
  show ?thesis
    by (simp add: publish_member [OF assms t] state_of_unlock_queues targets_def t)
next
  case False
  then have nm: "\<forall>t. msg_type m \<noteq> Member t" by simp
  then have "targets w m = []"
    by (cases "msg_type m") (simp_all add: targets_def)
  then show ?thesis
    by (simp add: publish_nonmember [OF assms nm] split: sum.splits)
qed

lemma publish_held: "lock w \<Longrightarrow> publish w m = Blocked OnLock w"
  by (simp add: publish_def with_lock_held)

section \<open>The registry after a call\<close>

text \<open>The subscriber lists after a subscribe or an unsubscribe, in any state.\<close>

lemma subs_of_subscribe:
  "subs_of (state_of (subscribe w x q)) t =
     (if \<not> lock w \<and> x = Member t \<and> map_of (subscribers w) t \<noteq> None \<and> q \<notin> set (subs_of w t)
      then subs_of w t @ [q] else subs_of w t)"
proof (cases "lock w")
  case True
  then show ?thesis by (simp add: subscribe_def with_lock_held)
next
  case False
  show ?thesis
  proof (cases "\<exists>t'. x = Member t'")
    case True
    then obtain t' where x: "x = Member t'" ..
    show ?thesis
    proof (cases "map_of (subscribers w) t'")
      case None
      then show ?thesis
        using False
        by (auto simp: x subscribe_def with_lock_def subscribe_body_def getitem_def subs_of_def)
    next
      case (Some qs)
      then have "subs_of w t' = qs" by (simp add: subs_of_def)
      then show ?thesis
        using False Some by (auto simp: x subscribe_member [OF False Some] subs_of_update)
    qed
  next
    case False
    then have "\<forall>t. x \<noteq> Member t" by simp
    from subscribe_nonmember [OF \<open>\<not> lock w\<close> this] show ?thesis
      using False by auto
  qed
qed

lemma subs_of_unsubscribe:
  "subs_of (state_of (unsubscribe w x q)) t =
     (if \<not> lock w \<and> x = Member t then remove1 q (subs_of w t) else subs_of w t)"
proof (cases "lock w")
  case True
  then show ?thesis by (simp add: unsubscribe_def with_lock_held)
next
  case False
  show ?thesis
  proof (cases "\<exists>t'. x = Member t'")
    case True
    then obtain t' where x: "x = Member t'" ..
    show ?thesis
    proof (cases "map_of (subscribers w) t'")
      case None
      then show ?thesis
        using False
        by (auto simp: x unsubscribe_def with_lock_def unsubscribe_body_def getitem_def subs_of_def)
    next
      case (Some qs)
      then have "subs_of w t' = qs" by (simp add: subs_of_def)
      then show ?thesis
        using False Some
        by (auto simp: x unsubscribe_member [OF False Some] subs_of_update remove1_idem)
    qed
  next
    case False
    then have "\<forall>t. x \<noteq> Member t" by simp
    from unsubscribe_nonmember [OF \<open>\<not> lock w\<close> this] show ?thesis
      using False by auto
  qed
qed

lemma keys_subscribe:
  "map fst (subscribers (state_of (subscribe w x q))) = map fst (subscribers w)"
proof (cases "lock w")
  case True
  then show ?thesis by (simp add: subscribe_def with_lock_held)
next
  case False
  show ?thesis
  proof (cases "\<exists>t'. x = Member t'")
    case True
    then obtain t' where x: "x = Member t'" ..
    show ?thesis
    proof (cases "map_of (subscribers w) t'")
      case None
      then show ?thesis
        using False
        by (simp add: x subscribe_def with_lock_def subscribe_body_def getitem_def)
    next
      case (Some qs)
      then show ?thesis
        by (simp add: x subscribe_member [OF False Some] keys_update)
    qed
  next
    case False
    then have "\<forall>t. x \<noteq> Member t" by simp
    from subscribe_nonmember [OF \<open>\<not> lock w\<close> this] show ?thesis by simp
  qed
qed

lemma keys_unsubscribe:
  "map fst (subscribers (state_of (unsubscribe w x q))) = map fst (subscribers w)"
proof (cases "lock w")
  case True
  then show ?thesis by (simp add: unsubscribe_def with_lock_held)
next
  case False
  show ?thesis
  proof (cases "\<exists>t'. x = Member t'")
    case True
    then obtain t' where x: "x = Member t'" ..
    show ?thesis
    proof (cases "map_of (subscribers w) t'")
      case None
      then show ?thesis
        using False
        by (simp add: x unsubscribe_def with_lock_def unsubscribe_body_def getitem_def)
    next
      case (Some qs)
      then show ?thesis
        by (simp add: x unsubscribe_member [OF False Some] keys_update)
    qed
  next
    case False
    then have "\<forall>t. x \<noteq> Member t" by simp
    from unsubscribe_nonmember [OF \<open>\<not> lock w\<close> this] show ?thesis by simp
  qed
qed

lemma subs_of_exec_call:
  "subs_of (state_of (exec_call w c)) t =
     (case c of
        Subscribe x q \<Rightarrow> subs_of (state_of (subscribe w x q)) t
      | Unsubscribe x q \<Rightarrow> subs_of (state_of (unsubscribe w x q)) t
      | _ \<Rightarrow> subs_of w t)"
  by (cases c)
     (simp_all add: state_of_with_ret subs_of_def publish_frame get_stats_frame get_frame)

lemma keys_exec_call:
  "map fst (subscribers (state_of (exec_call w c))) = map fst (subscribers w)"
  by (cases c)
     (simp_all add: state_of_with_ret keys_subscribe keys_unsubscribe publish_frame
        get_stats_frame get_frame)

lemma bus_inv_exec_call:
  assumes "bus_inv w"
  shows "bus_inv (state_of (exec_call w c))"
proof -
  have "distinct (subs_of (state_of (exec_call w c)) t)" for t
  proof -
    have d: "distinct (subs_of w t)"
      using assms by (simp add: bus_inv_def)
    show ?thesis
      using d unfolding subs_of_exec_call
      by (cases c) (simp_all add: subs_of_subscribe subs_of_unsubscribe)
  qed
  then show ?thesis
    using assms by (simp add: bus_inv_def keys_exec_call)
qed

lemma run_inv:
  "bus_inv w \<Longrightarrow> run w cs = Some (rs, w') \<Longrightarrow> bus_inv w'"
proof (induction cs arbitrary: w rs)
  case Nil
  then show ?case by simp
next
  case (Cons c cs)
  from Cons.prems(2) obtain r rs' where
    rest: "run (state_of (exec_call w c)) cs = Some (rs', w')"
    by (rule run_Cons_Some)
  from Cons.IH [OF bus_inv_exec_call [OF Cons.prems(1)] rest] show ?case .
qed

section \<open>A publish that returns, a mailbox that stays out\<close>

text \<open>A publish of a well-formed message: when it returns and when it blocks.\<close>

lemma publish_all_room:
  assumes "distinct (subs_of w t)" and "\<not> lock w" and "msg_type m = Member t"
    and "\<forall>q\<in>set (subs_of w t). \<not> full (queues w q)"
  shows "publish w m =
           Returned () (deliver (w\<lparr>message_count := message_count w + 1\<rparr>) (subs_of w t) m)"
proof -
  let ?w1 = "w\<lparr>lock := True, message_count := message_count w + 1\<rparr>"
  have "put_all ?w1 (subs_of w t) m = Returned () (deliver ?w1 (subs_of w t) m)"
    using put_all_deliver [OF assms(1), of ?w1 m] assms(4) by simp
  then have "publish w m = Returned () ((deliver ?w1 (subs_of w t) m)\<lparr>lock := False\<rparr>)"
    by (simp add: publish_member [OF assms(2,3)])
  moreover have "(deliver ?w1 (subs_of w t) m)\<lparr>lock := False\<rparr> =
      deliver (w\<lparr>message_count := message_count w + 1\<rparr>) (subs_of w t) m"
    using assms(2) by (simp add: deliver_lock deliver_message_count unlock_free lock_deliver)
  ultimately show ?thesis by simp
qed

lemma publish_first_full:
  assumes "distinct (subs_of w t)" and "\<not> lock w" and "msg_type m = Member t"
    and "subs_of w t = qs1 @ q # qs2" and "\<forall>x\<in>set qs1. \<not> full (queues w x)"
    and "full (queues w q)"
  shows "publish w m =
           Blocked (NotFull q) (deliver (w\<lparr>lock := True, message_count := message_count w + 1\<rparr>) qs1 m)"
proof -
  let ?w1 = "w\<lparr>lock := True, message_count := message_count w + 1\<rparr>"
  have d1: "distinct (qs1 @ [q])"
    using assms(1,4) by simp
  have "put_all ?w1 (qs1 @ q # qs2) m = Blocked (NotFull q) (deliver ?w1 qs1 m)"
    using put_all_blocks [OF d1, of ?w1 qs2 m] assms(5,6) by simp
  then show ?thesis
    using assms(4) by (simp add: publish_member [OF assms(2,3)])
qed

lemma publish_returned:
  assumes "distinct (subs_of w t)" and "\<not> lock w" and "msg_type m = Member t"
    and "publish w m = Returned () w'"
  shows "(\<forall>q\<in>set (subs_of w t). \<not> full (queues w q))
       \<and> w' = deliver (w\<lparr>message_count := message_count w + 1\<rparr>) (subs_of w t) m"
proof -
  have room: "\<forall>q\<in>set (subs_of w t). \<not> full (queues w q)"
  proof (rule ccontr)
    assume "\<not> (\<forall>q\<in>set (subs_of w t). \<not> full (queues w q))"
    then have "\<exists>q\<in>set (subs_of w t). full (queues w q)" by simp
    from split_list_first_prop [OF this]
    obtain qs1 q qs2 where "subs_of w t = qs1 @ q # qs2" and "full (queues w q)"
      and "\<forall>x\<in>set qs1. \<not> full (queues w x)"
      by blast
    from publish_first_full [OF assms(1-3) this(1,3,2)] assms(4) show False by simp
  qed
  from publish_all_room [OF assms(1-3) room] assms(4) room show ?thesis by simp
qed

lemma items_deliver:
  "items (queues (deliver w qs m) q) =
     (if q \<in> set qs then items (queues w q) @ [m] else items (queues w q))"
  by (simp add: deliver_def)

lemma publish_untouched:
  assumes "q \<notin> set (targets w m)"
  shows "queues (state_of (publish w m)) q = queues w q"
proof (cases "lock w")
  case True
  then show ?thesis by (simp add: publish_held)
next
  case False
  from put_all_queues [of q "targets w m" "w\<lparr>lock := True, message_count := message_count w + 1\<rparr>" m]
  show ?thesis
    using assms by (simp add: publish_queues [OF False])
qed

lemma stays_subscribed:
  assumes "c \<noteq> Unsubscribe (Member t) q" and "q \<in> set (subs_of w t)"
  shows "q \<in> set (subs_of (state_of (exec_call w c)) t)"
  using assms unfolding subs_of_exec_call
  by (cases c) (auto simp: subs_of_subscribe subs_of_unsubscribe)

lemma stays_unsubscribed:
  assumes "c \<noteq> Subscribe (Member t) q" and "q \<notin> set (subs_of w t)"
  shows "q \<notin> set (subs_of (state_of (exec_call w c)) t)"
  using assms unfolding subs_of_exec_call
  by (cases c) (auto simp: subs_of_subscribe subs_of_unsubscribe dest: notin_set_remove1)

lemma run_stays_unsubscribed:
  "q \<notin> set (subs_of w t) \<Longrightarrow> \<forall>c\<in>set cs. c \<noteq> Subscribe (Member t) q \<Longrightarrow>
     run w cs = Some (rs, w') \<Longrightarrow> q \<notin> set (subs_of w' t)"
proof (induction cs arbitrary: w rs)
  case Nil
  then show ?case by simp
next
  case (Cons c cs)
  from Cons.prems(3) obtain r rs' where
    rest: "run (state_of (exec_call w c)) cs = Some (rs', w')"
    by (rule run_Cons_Some)
  have "q \<notin> set (subs_of (state_of (exec_call w c)) t)"
    using stays_unsubscribed [of c t q w] Cons.prems(1,2) by simp
  from Cons.IH [OF this _ rest] Cons.prems(2) show ?case by simp
qed

section \<open>A run seen from one mailbox\<close>

text \<open>One call of a run, seen from a mailbox that stays subscribed to type \<open>t\<close>.\<close>

lemma publish_items:
  "\<exists>k. items (queues (state_of (publish w m)) q) = items (queues w q) @ replicate k m"
proof (cases "lock w")
  case True
  have "items (queues w q) = items (queues w q) @ replicate 0 m" by simp
  then have "\<exists>k. items (queues w q) = items (queues w q) @ replicate k m" ..
  then show ?thesis using True by (simp add: publish_held)
next
  case False
  from put_all_queues [of q "targets w m" "w\<lparr>lock := True, message_count := message_count w + 1\<rparr>" m]
  show ?thesis
    by (simp add: publish_queues [OF False])
qed

lemma publish_member_not_raised:
  assumes "msg_type m = Member t"
  shows "publish w m \<noteq> Raised e w1"
proof (cases "lock w")
  case True
  then show ?thesis by (simp add: publish_held)
next
  case False
  show ?thesis
    using put_all_not_raised [of "w\<lparr>lock := True, message_count := message_count w + 1\<rparr>" "subs_of w t" m]
    by (simp add: publish_member [OF False assms] split: outcome.splits)
qed

lemma publish_same_type:
  assumes "bus_inv w" and "\<not> lock w" and "q \<in> set (subs_of w t)" and "msg_type m = Member t"
    and "publish w m = Returned () w1"
  shows "items (queues w1 q) = items (queues w q) @ [m]"
proof -
  have "distinct (subs_of w t)"
    using assms(1) by (simp add: bus_inv_def)
  from publish_returned [OF this assms(2,4,5)]
  have "w1 = deliver (w\<lparr>message_count := message_count w + 1\<rparr>) (subs_of w t) m" by simp
  then show ?thesis
    using assms(3) by (simp add: items_deliver)
qed

lemma publish_other_type:
  assumes "\<not> of_type t m"
  shows "filter (of_type t) (items (queues (state_of (publish w m)) q)) =
           filter (of_type t) (items (queues w q))"
proof -
  obtain k where "items (queues (state_of (publish w m)) q) = items (queues w q) @ replicate k m"
    using publish_items by blast
  then show ?thesis
    using assms by simp
qed

lemma get_order:
  assumes "(\<exists>v. exec_call w (Get q') = Returned v w1 \<and> r = Ret v)
         \<or> (\<exists>e. exec_call w (Get q') = Raised e w1 \<and> r = Exc e)"
  shows "received q [Get q'] [r] @ items (queues w1 q) = items (queues w q)"
  using assms by (auto simp: get_def split: list.splits)

lemma received_other:
  "\<forall>q'. c \<noteq> Get q' \<Longrightarrow> received q [c] [r] = []"
  by (cases c) simp_all

lemma step_order:
  assumes "bus_inv w" and "\<not> lock w" and "q \<in> set (subs_of w t)"
    and "(\<exists>v. exec_call w c = Returned v w1 \<and> r = Ret v)
       \<or> (\<exists>e. exec_call w c = Raised e w1 \<and> r = Exc e)"
  shows "filter (of_type t) (received q [c] [r] @ items (queues w1 q)) =
           filter (of_type t) (items (queues w q)) @ published t [c]"
proof (cases c)
  case (Subscribe x q')
  have w1: "w1 = state_of (subscribe w x q')"
    using assms(4) Subscribe by (cases "subscribe w x q'") auto
  show ?thesis
    by (simp add: Subscribe w1 subscribe_frame)
next
  case (Unsubscribe x q')
  have w1: "w1 = state_of (unsubscribe w x q')"
    using assms(4) Unsubscribe by (cases "unsubscribe w x q'") auto
  show ?thesis
    by (simp add: Unsubscribe w1 unsubscribe_frame)
next
  case (Publish m)
  have w1: "w1 = state_of (publish w m)"
    using assms(4) Publish by (cases "publish w m") auto
  show ?thesis
  proof (cases "of_type t m")
    case True
    then have mt: "msg_type m = Member t" by (simp add: of_type_def)
    have "publish w m = Returned () w1"
      using assms(4) Publish publish_member_not_raised [OF mt, of w]
      by (cases "publish w m") auto
    from publish_same_type [OF assms(1-3) mt this] show ?thesis
      using True by (simp add: Publish mt)
  next
    case False
    then have "msg_type m \<noteq> Member t" by (simp add: of_type_def)
    then show ?thesis
      using publish_other_type [OF False, of w q] by (simp add: Publish w1)
  qed
next
  case Get_stats
  have w1: "w1 = state_of (get_stats w)"
    using assms(4) Get_stats by (cases "get_stats w") auto
  show ?thesis
    by (simp add: Get_stats w1 get_stats_frame)
next
  case (Get q')
  from get_order [of w q' w1 r q] assms(4) Get
  have "received q [c] [r] @ items (queues w1 q) = items (queues w q)" by simp
  then show ?thesis by (simp add: Get)
qed

lemma received_Cons:
  "received q (c # cs) (r # rs) = received q [c] [r] @ received q cs rs"
proof (cases c)
  case (Get q')
  then show ?thesis
  proof (cases r)
    case (Ret v)
    then show ?thesis using Get by (cases v) simp_all
  next
    case (Exc e)
    then show ?thesis using Get by simp
  qed
qed simp_all

lemma published_Cons: "published t (c # cs) = published t [c] @ published t cs"
proof (cases c)
  case (Publish m)
  then show ?thesis by simp
qed simp_all

lemma run_order:
  "bus_inv w \<Longrightarrow> \<not> lock w \<Longrightarrow> q \<in> set (subs_of w t) \<Longrightarrow>
   \<forall>c\<in>set cs. c \<noteq> Unsubscribe (Member t) q \<Longrightarrow> run w cs = Some (rs, w') \<Longrightarrow>
     filter (of_type t) (received q cs rs @ items (queues w' q)) =
       filter (of_type t) (items (queues w q)) @ published t cs"
proof (induction cs arbitrary: w rs)
  case Nil
  then show ?case by simp
next
  case (Cons c cs)
  let ?w1 = "state_of (exec_call w c)"
  from Cons.prems(5) obtain r rs' where
    rs: "rs = r # rs'" and rest: "run ?w1 cs = Some (rs', w')" and
    fin: "(\<exists>v. exec_call w c = Returned v ?w1 \<and> r = Ret v)
         \<or> (\<exists>e. exec_call w c = Raised e ?w1 \<and> r = Exc e)"
    by (rule run_Cons_Some)
  have inv1: "bus_inv ?w1"
    using Cons.prems(1) by (rule bus_inv_exec_call)
  have free1: "\<not> lock ?w1"
    using fin exec_call_done [OF _ Cons.prems(2)] by blast
  have in1: "q \<in> set (subs_of ?w1 t)"
    using stays_subscribed [of c t q w] Cons.prems(3,4) by simp
  have later: "filter (of_type t) (received q cs rs' @ items (queues w' q)) =
       filter (of_type t) (items (queues ?w1 q)) @ published t cs"
    using Cons.IH [OF inv1 free1 in1 _ rest] Cons.prems(4) by simp
  have now: "filter (of_type t) (received q [c] [r] @ items (queues ?w1 q)) =
           filter (of_type t) (items (queues w q)) @ published t [c]"
    using Cons.prems(1-3) fin by (rule step_order)
  have "filter (of_type t) (received q (c # cs) rs @ items (queues w' q)) =
      filter (of_type t) (received q [c] [r]) @ filter (of_type t) (received q cs rs' @ items (queues w' q))"
    by (simp add: rs received_Cons [of q c cs r rs'])
  also have "\<dots> = filter (of_type t) (received q [c] [r]) @ filter (of_type t) (items (queues ?w1 q))
      @ published t cs"
    by (simp only: later)
  also have "\<dots> = filter (of_type t) (received q [c] [r] @ items (queues ?w1 q)) @ published t cs"
    by simp
  also have "\<dots> = filter (of_type t) (items (queues w q)) @ published t [c] @ published t cs"
    by (simp only: now append_assoc)
  finally show ?case
    by (simp only: published_Cons [of t c cs])
qed

section \<open>A publish that blocks\<close>

lemma put_all_blocked:
  "put_all w qs m = Blocked b w1 \<Longrightarrow>
     (\<exists>q\<in>set qs. b = NotFull q \<and> full (queues w1 q)) \<and> lock w1 = lock w"
proof (induction qs arbitrary: w)
  case Nil
  then show ?case by simp
next
  case (Cons a qs)
  show ?case
  proof (cases "full (queues w a)")
    case True
    then show ?thesis using Cons.prems by (auto simp: put_def)
  next
    case False
    let ?w1 = "w\<lparr>queues := (queues w)(a := (queues w a)\<lparr>items := items (queues w a) @ [m]\<rparr>)\<rparr>"
    have "put_all ?w1 qs m = Blocked b w1"
      using Cons.prems False by (simp add: put_def)
    from Cons.IH [OF this] show ?thesis by auto
  qed
qed

lemma publish_blocked:
  assumes "\<not> lock w" and "publish w m = Blocked b w1"
  shows "(\<exists>q\<in>set (targets w m). b = NotFull q \<and> full (queues w1 q)) \<and> lock w1"
proof (cases "\<exists>t. msg_type m = Member t")
  case True
  then obtain t where t: "msg_type m = Member t" ..
  let ?w0 = "w\<lparr>lock := True, message_count := message_count w + 1\<rparr>"
  have "put_all ?w0 (subs_of w t) m = Blocked b w1"
    using assms(2) by (simp add: publish_member [OF assms(1) t] split: outcome.splits)
  from put_all_blocked [OF this] show ?thesis
    by (simp add: targets_def t)
next
  case False
  then have nm: "\<forall>t. msg_type m \<noteq> Member t" by simp
  show ?thesis
    using assms(2) by (simp add: publish_nonmember [OF assms(1) nm] split: sum.splits if_splits)
qed

section \<open>Steps of an interleaved execution\<close>

lemma enter_publish_member:
  assumes "msg_type m = Member t"
  shows "enter_publish w m =
           (None, w\<lparr>lock := True, message_count := message_count w + 1\<rparr>, Some (m, subs_of w t))"
  using assms
  by (simp add: enter_publish_def dict_get_def str_Message_def subs_of_def Let_def
        split: option.splits)

lemma enter_publish_nonmember:
  assumes "\<forall>t. msg_type m \<noteq> Member t"
  shows "\<exists>e. enter_publish w m = (Some (Exc e), w\<lparr>message_count := message_count w + 1, lock := False\<rparr>, None)
       \<or> enter_publish w m = (None, w\<lparr>lock := True, message_count := message_count w + 1\<rparr>, Some (m, []))"
  using assms
  by (cases "msg_type m")
     (simp_all add: enter_publish_def dict_get_def str_Message_def Let_def)

lemma bus_inv_fields:
  "subscribers w' = subscribers w \<Longrightarrow> bus_inv w' = bus_inv w"
  by (simp add: bus_inv_def subs_of_def)

lemma step_enter_publish:
  assumes "conf_inv (w, p)" and "q \<in> set (subs_of w t)"
    and "step (w, p) (Enter (Publish m)) = Some (r, (w', p'))"
  shows "conf_inv (w', p') \<and> q \<in> set (subs_of w' t)
       \<and> filter (of_type t) (taken q [Enter (Publish m)] [r] @ items (queues w' q)) @ owed t q p' =
           filter (of_type t) (items (queues w q)) @ owed t q p @ entered t [Enter (Publish m)]"
proof -
  have free: "\<not> lock w" and ep: "enter_publish w m = (r, (w', p'))"
    using assms(3) by (simp_all split: if_splits)
  have p: "p = None"
    using assms(1) free by (cases p) (auto simp: conf_inv_def)
  have inv: "bus_inv w"
    using assms(1) by (simp add: conf_inv_def)
  show ?thesis
  proof (cases "\<exists>t0. msg_type m = Member t0")
    case True
    then obtain t0 where t0: "msg_type m = Member t0" ..
    have eq: "r = None" "w' = w\<lparr>lock := True, message_count := message_count w + 1\<rparr>"
      "p' = Some (m, subs_of w t0)"
      using ep by (simp_all add: enter_publish_member [OF t0])
    have "distinct (subs_of w t0)"
      using inv by (simp add: bus_inv_def)
    then have "conf_inv (w', p')"
      using inv by (simp add: conf_inv_def eq bus_inv_def subs_of_def)
    moreover have "q \<in> set (subs_of w' t)"
      using assms(2) by (simp add: eq subs_of_def)
    moreover have "filter (of_type t) (taken q [Enter (Publish m)] [r] @ items (queues w' q)) @ owed t q p' =
           filter (of_type t) (items (queues w q)) @ owed t q p @ entered t [Enter (Publish m)]"
      using assms(2) by (auto simp: eq p owed_def t0)
    ultimately show ?thesis by simp
  next
    case False
    then have nm: "\<forall>t. msg_type m \<noteq> Member t" by simp
    from enter_publish_nonmember [OF nm, of w] ep
    have cases: "(\<exists>e. r = Some (Exc e) \<and> w' = w\<lparr>message_count := message_count w + 1, lock := False\<rparr> \<and> p' = None)
        \<or> (r = None \<and> w' = w\<lparr>lock := True, message_count := message_count w + 1\<rparr> \<and> p' = Some (m, []))"
      by auto
    then have "conf_inv (w', p')"
      using inv by (auto simp: conf_inv_def bus_inv_def subs_of_def)
    moreover have "q \<in> set (subs_of w' t)"
      using assms(2) cases by (auto simp: subs_of_def)
    moreover have "filter (of_type t) (taken q [Enter (Publish m)] [r] @ items (queues w' q)) @ owed t q p' =
           filter (of_type t) (items (queues w q)) @ owed t q p @ entered t [Enter (Publish m)]"
      using cases nm by (auto simp: p owed_def)
    ultimately show ?thesis by simp
  qed
qed

lemma step_deliver:
  assumes "conf_inv (w, p)" and "q \<in> set (subs_of w t)"
    and "step (w, p) Deliver = Some (r, (w', p'))"
  shows "conf_inv (w', p') \<and> q \<in> set (subs_of w' t)
       \<and> filter (of_type t) (taken q [Deliver] [r] @ items (queues w' q)) @ owed t q p' =
           filter (of_type t) (items (queues w q)) @ owed t q p @ entered t [Deliver]"
proof (cases p)
  case None
  then show ?thesis using assms(3) by simp
next
  case (Some mq)
  obtain m qs where mq: "mq = (m, qs)" by (cases mq)
  have inv: "bus_inv w" and held: "lock w" and dist: "distinct qs"
    using assms(1) by (simp_all add: conf_inv_def Some mq)
  show ?thesis
  proof (cases qs)
    case Nil
    then have eq: "w' = w\<lparr>lock := False\<rparr>" "p' = None"
      using assms(3) by (simp_all add: Some mq)
    show ?thesis
      using inv assms(2) by (simp add: eq conf_inv_def bus_inv_def subs_of_def owed_def Some mq Nil)
  next
    case (Cons a rest)
    have room: "\<not> full (queues w a)"
      using assms(3) by (auto simp: Some mq Cons put_def split: if_splits)
    then have eq: "w' = w\<lparr>queues := (queues w)(a := (queues w a)\<lparr>items := items (queues w a) @ [m]\<rparr>)\<rparr>"
      "p' = Some (m, rest)"
      using assms(3) by (simp_all add: Some mq Cons put_def)
    have "conf_inv (w', p')"
      using inv held dist by (simp add: eq conf_inv_def bus_inv_def subs_of_def Cons)
    moreover have "q \<in> set (subs_of w' t)"
      using assms(2) by (simp add: eq subs_of_def)
    moreover have "filter (of_type t) (taken q [Deliver] [r] @ items (queues w' q)) @ owed t q p' =
           filter (of_type t) (items (queues w q)) @ owed t q p @ entered t [Deliver]"
      using dist by (auto simp: eq owed_def Some mq Cons of_type_def)
    ultimately show ?thesis by simp
  qed
qed

lemma step_enter_get:
  assumes "conf_inv (w, p)" and "q \<in> set (subs_of w t)"
    and "step (w, p) (Enter (Get q')) = Some (r, (w', p'))"
  shows "conf_inv (w', p') \<and> q \<in> set (subs_of w' t)
       \<and> filter (of_type t) (taken q [Enter (Get q')] [r] @ items (queues w' q)) @ owed t q p' =
           filter (of_type t) (items (queues w q)) @ owed t q p @ entered t [Enter (Get q')]"
proof (cases "items (queues w q')")
  case Nil
  then have "r = Some (Exc Empty)" "w' = w" "p' = p"
    using assms(3) by (simp_all add: get_def)
  then show ?thesis using assms(1,2) by simp
next
  case (Cons m ms)
  then have eq: "r = Some (Ret (RMessage m))"
    "w' = w\<lparr>queues := (queues w)(q' := (queues w q')\<lparr>items := ms\<rparr>)\<rparr>" "p' = p"
    using assms(3) by (simp_all add: get_def)
  have "conf_inv (w', p')"
    using assms(1) by (auto simp: eq conf_inv_def bus_inv_def subs_of_def split: option.splits)
  moreover have "q \<in> set (subs_of w' t)"
    using assms(2) by (simp add: eq subs_of_def)
  moreover have "filter (of_type t) (taken q [Enter (Get q')] [r] @ items (queues w' q)) @ owed t q p' =
           filter (of_type t) (items (queues w q)) @ owed t q p @ entered t [Enter (Get q')]"
    using Cons by (auto simp: eq)
  ultimately show ?thesis by simp
qed

lemma step_enter_other:
  assumes "conf_inv (w, p)" and "q \<in> set (subs_of w t)"
    and "c \<noteq> Unsubscribe (Member t) q" and "\<forall>m. c \<noteq> Publish m" and "\<forall>q'. c \<noteq> Get q'"
    and "step (w, p) (Enter c) = Some (r, (w', p'))"
  shows "conf_inv (w', p') \<and> q \<in> set (subs_of w' t)
       \<and> filter (of_type t) (taken q [Enter c] [r] @ items (queues w' q)) @ owed t q p' =
           filter (of_type t) (items (queues w q)) @ owed t q p @ entered t [Enter c]"
proof -
  have st: "step (w, p) (Enter c) =
      (case exec_call w c of
        Returned r w' \<Rightarrow> Some (Some (Ret r), w', p)
      | Raised e w' \<Rightarrow> Some (Some (Exc e), w', p)
      | Blocked b w' \<Rightarrow> None)"
    using assms(4,5) by (cases c) simp_all
  have fin: "(\<exists>v. exec_call w c = Returned v w' \<and> r = Some (Ret v))
       \<or> (\<exists>e. exec_call w c = Raised e w' \<and> r = Some (Exc e))" and p': "p' = p"
    using assms(6) unfolding st by (cases "exec_call w c"; simp)+
  have w': "w' = state_of (exec_call w c)"
    using fin by auto
  have free: "\<not> lock w"
  proof
    assume "lock w"
    then have "exec_call w c = Blocked OnLock w"
      using assms(5)
      by (cases c) (simp_all add: subscribe_def unsubscribe_def publish_def get_stats_def with_lock_held)
    then show False using fin by simp
  qed
  then have p: "p = None"
    using assms(1) by (cases p) (auto simp: conf_inv_def)
  have inv: "bus_inv w"
    using assms(1) by (simp add: conf_inv_def)
  have "bus_inv w'"
    unfolding w' using inv by (rule bus_inv_exec_call)
  moreover have "\<not> lock w'"
    using fin exec_call_done [OF _ free, of c _ w'] by blast
  ultimately have "conf_inv (w', p')"
    by (simp add: conf_inv_def p p')
  moreover have "q \<in> set (subs_of w' t)"
    unfolding w' using assms(3,2) by (rule stays_subscribed)
  moreover have "queues w' = queues w"
    unfolding w' using assms(4,5)
    by (cases c) (simp_all add: state_of_with_ret subscribe_frame unsubscribe_frame get_stats_frame)
  moreover have "taken q [Enter c] [r] = []" and "entered t [Enter c] = []"
    using assms(4,5) by (cases c; simp)+
  ultimately show ?thesis
    by (simp add: p p' owed_def)
qed

lemma step_order_interleaved:
  assumes "conf_inv (w, p)" and "q \<in> set (subs_of w t)"
    and "e \<noteq> Enter (Unsubscribe (Member t) q)"
    and "step (w, p) e = Some (r, (w', p'))"
  shows "conf_inv (w', p') \<and> q \<in> set (subs_of w' t)
       \<and> filter (of_type t) (taken q [e] [r] @ items (queues w' q)) @ owed t q p' =
           filter (of_type t) (items (queues w q)) @ owed t q p @ entered t [e]"
proof (cases e)
  case Deliver
  then show ?thesis using step_deliver [OF assms(1,2)] assms(4) by simp
next
  case (Enter c)
  show ?thesis
  proof (cases c)
    case (Publish m)
    then show ?thesis using step_enter_publish [OF assms(1,2)] assms(4) Enter by simp
  next
    case (Get q')
    then show ?thesis using step_enter_get [OF assms(1,2)] assms(4) Enter by simp
  next
    case (Subscribe x q')
    then show ?thesis
      using step_enter_other [OF assms(1,2), of c r w' p'] assms(3,4) Enter by simp
  next
    case (Unsubscribe x q')
    then show ?thesis
      using step_enter_other [OF assms(1,2), of c r w' p'] assms(3,4) Enter by simp
  next
    case Get_stats
    then show ?thesis
      using step_enter_other [OF assms(1,2), of c r w' p'] assms(3,4) Enter by simp
  qed
qed

lemma taken_Cons: "taken q (e # es) (r # rs) = taken q [e] [r] @ taken q es rs"
proof (cases "\<exists>q' m. e = Enter (Get q') \<and> r = Some (Ret (RMessage m))")
  case True
  then show ?thesis by auto
next
  case False
  then have "taken q (e # es') (r # rs') = taken q es' rs'" for es' rs'
    by (cases "(q, e # es', r # rs')" rule: taken.cases) auto
  from this [of es rs] this [of "[]" "[]"] show ?thesis by simp
qed

lemma entered_Cons: "entered t (e # es) = entered t [e] @ entered t es"
  by (rule entered.cases [of "(t, e # es)"]) auto

lemma exec_order:
  "conf_inv (w, p) \<Longrightarrow> q \<in> set (subs_of w t) \<Longrightarrow>
   \<forall>e\<in>set es. e \<noteq> Enter (Unsubscribe (Member t) q) \<Longrightarrow>
   exec (w, p) es = Some (rs, (w', p')) \<Longrightarrow>
     conf_inv (w', p')
     \<and> filter (of_type t) (taken q es rs @ items (queues w' q)) @ owed t q p' =
         filter (of_type t) (items (queues w q)) @ owed t q p @ entered t es"
proof (induction es arbitrary: w p rs)
  case Nil
  then show ?case by simp
next
  case (Cons e es)
  from Cons.prems(4) obtain r w1 p1 rs1 where
    st: "step (w, p) e = Some (r, (w1, p1))" and rest: "exec (w1, p1) es = Some (rs1, (w', p'))"
    and rs: "rs = r # rs1"
    by (auto split: option.splits)
  have ne: "e \<noteq> Enter (Unsubscribe (Member t) q)"
    using Cons.prems(3) by simp
  from step_order_interleaved [OF Cons.prems(1,2) ne st]
  have inv1: "conf_inv (w1, p1)" and in1: "q \<in> set (subs_of w1 t)"
    and now: "filter (of_type t) (taken q [e] [r] @ items (queues w1 q)) @ owed t q p1 =
           filter (of_type t) (items (queues w q)) @ owed t q p @ entered t [e]"
    by simp_all
  from Cons.IH [OF inv1 in1 _ rest] Cons.prems(3)
  have inv': "conf_inv (w', p')"
    and later: "filter (of_type t) (taken q es rs1 @ items (queues w' q)) @ owed t q p' =
         filter (of_type t) (items (queues w1 q)) @ owed t q p1 @ entered t es"
    by simp_all
  have "filter (of_type t) (taken q (e # es) rs @ items (queues w' q)) @ owed t q p' =
      filter (of_type t) (taken q [e] [r]) @
        (filter (of_type t) (taken q es rs1 @ items (queues w' q)) @ owed t q p')"
    by (simp add: rs taken_Cons [of q e es r rs1])
  also have "\<dots> = filter (of_type t) (taken q [e] [r]) @
        (filter (of_type t) (items (queues w1 q)) @ owed t q p1 @ entered t es)"
    by (simp only: later)
  also have "\<dots> = (filter (of_type t) (taken q [e] [r] @ items (queues w1 q)) @ owed t q p1)
        @ entered t es"
    by simp
  also have "\<dots> = (filter (of_type t) (items (queues w q)) @ owed t q p @ entered t [e]) @ entered t es"
    by (simp only: now)
  finally show ?case
    using inv' by (simp add: entered_Cons [of t e es])
qed

text \<open>A publish that returns is its steps taken one after the other without interruption.\<close>

lemma exec_deliver_all:
  "put_all w qs m = Returned () w' \<Longrightarrow>
     exec (w, Some (m, qs)) (replicate (Suc (length qs)) Deliver) =
       Some (replicate (length qs) None @ [Some (Ret RNone)], (w'\<lparr>lock := False\<rparr>, None))"
proof (induction qs arbitrary: w)
  case Nil
  then show ?case by simp
next
  case (Cons a qs)
  show ?case
  proof (cases "put w a m")
    case (Returned u w1)
    then have "put_all w1 qs m = Returned () w'"
      using Cons.prems by simp
    from Cons.IH [OF this] show ?thesis
      by (simp add: Returned)
  next
    case (Raised e w1)
    then show ?thesis using Cons.prems by simp
  next
    case (Blocked b w1)
    then show ?thesis using Cons.prems by simp
  qed
qed

lemma exec_publish:
  assumes "publish w m = Returned () w'"
  shows "exec (w, None) (Enter (Publish m) # replicate (Suc (length (targets w m))) Deliver) =
           Some (None # replicate (length (targets w m)) None @ [Some (Ret RNone)], (w', None))"
proof -
  have free: "\<not> lock w"
    using with_lock_done [of "publish_body m" w "()" w'] assms by (simp add: publish_def)
  let ?w1 = "w\<lparr>lock := True, message_count := message_count w + 1\<rparr>"
  obtain w2 where w2: "publish_body m (w\<lparr>lock := True\<rparr>) = Returned () w2" and w': "w' = w2\<lparr>lock := False\<rparr>"
    using assms free by (auto simp: publish_def with_lock_def split: outcome.splits)
  have ep: "enter_publish w m = (None, ?w1, Some (m, targets w m))
      \<and> put_all ?w1 (targets w m) m = Returned () w2"
    using w2
    by (cases "msg_type m")
       (auto simp: publish_body_def enter_publish_def dict_get_def str_Message_def Let_def
          targets_def subs_of_def split: option.splits sum.splits if_splits)
  from exec_deliver_all [of ?w1 "targets w m" m w2] ep
  show ?thesis
    using free by (simp add: w' del: replicate.simps)
qed

lemma step_conf_inv:
  assumes "conf_inv (w, p)" and "step (w, p) e = Some (r, (w', p'))"
  shows "conf_inv (w', p')"
proof -
  have inv: "bus_inv w"
    using assms(1) by (simp add: conf_inv_def)
  show ?thesis
  proof (cases e)
    case Deliver
    show ?thesis
    proof (cases p)
      case None
      then show ?thesis using assms(2) Deliver by simp
    next
      case (Some mq)
      obtain m qs where mq: "mq = (m, qs)" by (cases mq)
      have held: "lock w" and dist: "distinct qs"
        using assms(1) by (simp_all add: conf_inv_def Some mq)
      show ?thesis
      proof (cases qs)
        case Nil
        then have "w' = w\<lparr>lock := False\<rparr>" and "p' = None"
          using assms(2) by (simp_all add: Deliver Some mq)
        then show ?thesis
          using inv by (simp add: conf_inv_def bus_inv_def subs_of_def)
      next
        case (Cons a rest)
        have "\<not> full (queues w a)"
          using assms(2) by (auto simp: Deliver Some mq Cons put_def split: if_splits)
        then have "w' = w\<lparr>queues := (queues w)(a := (queues w a)\<lparr>items := items (queues w a) @ [m]\<rparr>)\<rparr>"
          and "p' = Some (m, rest)"
          using assms(2) by (simp_all add: Deliver Some mq Cons put_def)
        then show ?thesis
          using inv held dist by (simp add: conf_inv_def bus_inv_def subs_of_def Cons)
      qed
    qed
  next
    case (Enter c)
    show ?thesis
    proof (cases "\<exists>m. c = Publish m")
      case True
      then obtain m where c: "c = Publish m" ..
      have free: "\<not> lock w" and ep: "enter_publish w m = (r, (w', p'))"
        using assms(2) by (simp_all add: Enter c split: if_splits)
      show ?thesis
      proof (cases "\<exists>t. msg_type m = Member t")
        case True
        then obtain t where t: "msg_type m = Member t" ..
        have "w' = w\<lparr>lock := True, message_count := message_count w + 1\<rparr>"
          and "p' = Some (m, subs_of w t)"
          using ep by (simp_all add: enter_publish_member [OF t])
        moreover have "distinct (subs_of w t)"
          using inv by (simp add: bus_inv_def)
        ultimately show ?thesis
          using inv by (simp add: conf_inv_def bus_inv_def subs_of_def)
      next
        case False
        then have nm: "\<forall>t. msg_type m \<noteq> Member t" by simp
        from enter_publish_nonmember [OF nm, of w] ep
        have "(w' = w\<lparr>message_count := message_count w + 1, lock := False\<rparr> \<and> p' = None)
            \<or> (w' = w\<lparr>lock := True, message_count := message_count w + 1\<rparr> \<and> p' = Some (m, []))"
          by auto
        then show ?thesis
          using inv by (auto simp: conf_inv_def bus_inv_def subs_of_def)
      qed
    next
      case False
      then have st: "step (w, p) (Enter c) =
          (case exec_call w c of
            Returned r w' \<Rightarrow> Some (Some (Ret r), w', p)
          | Raised e w' \<Rightarrow> Some (Some (Exc e), w', p)
          | Blocked b w' \<Rightarrow> None)"
        by (cases c) simp_all
      have fin: "(\<exists>v. exec_call w c = Returned v w') \<or> (\<exists>e. exec_call w c = Raised e w')"
        and p': "p' = p"
        using assms(2) unfolding Enter st by (cases "exec_call w c"; simp)+
      have w': "w' = state_of (exec_call w c)"
        using fin by auto
      have inv': "bus_inv w'"
        unfolding w' using inv by (rule bus_inv_exec_call)
      have "lock w' = lock w"
      proof (cases "lock w")
        case True
        have "\<exists>q. c = Get q"
        proof (rule ccontr)
          assume "\<not> (\<exists>q. c = Get q)"
          then have "exec_call w c = Blocked OnLock w"
            using True
            by (cases c)
               (simp_all add: subscribe_def unsubscribe_def publish_def get_stats_def with_lock_held)
          then show False using fin by simp
        qed
        then obtain q where "c = Get q" ..
        then show ?thesis
          by (simp add: w' state_of_with_ret get_frame)
      next
        case False
        then have "\<not> lock w'"
          using fin exec_call_done [of w c _ w'] by blast
        then show ?thesis using False by simp
      qed
      then show ?thesis
        using assms(1) inv' by (cases p) (auto simp: conf_inv_def p')
    qed
  qed
qed

lemma exec_conf_inv:
  "conf_inv c \<Longrightarrow> exec c es = Some (os, c') \<Longrightarrow> conf_inv c'"
proof (induction es arbitrary: c os)
  case Nil
  then show ?case by simp
next
  case (Cons e es)
  obtain w p where c: "c = (w, p)" by (cases c)
  from Cons.prems(2) obtain r w1 p1 os1 where
    st: "step (w, p) e = Some (r, (w1, p1))" and rest: "exec (w1, p1) es = Some (os1, c')"
    by (auto simp: c split: option.splits)
  from step_conf_inv [OF _ st] Cons.prems(1) have "conf_inv (w1, p1)"
    by (simp add: c)
  from Cons.IH [OF this rest] show ?case .
qed

lemma lock_iff_in_progress: "conf_inv (w, p) \<Longrightarrow> lock w \<longleftrightarrow> p \<noteq> None"
  by (cases p) (auto simp: conf_inv_def)

section \<open>The example states\<close>

lemma one_subscriber_eq:
  "one_subscriber n =
     \<lparr>name = ''bus'',
      subscribers = [(ORDER, [0]), (PAYMENT, []), (INVENTORY, []), (SHIPPING, []), (NOTIFICATION, [])],
      lock = False, message_count = 0, queues = bounded_queues n\<rparr>"
  by (simp add: one_subscriber_def bus_defs)

lemma bus_inv_one_subscriber: "bus_inv (one_subscriber n)"
  unfolding bus_inv_def subs_of_def one_subscriber_eq
  by (simp add: MessageType_members_def)

lemma full_mailbox_eq:
  "full_mailbox =
     \<lparr>name = ''bus'',
      subscribers = [(ORDER, [0]), (PAYMENT, []), (INVENTORY, []), (SHIPPING, []), (NOTIFICATION, [])],
      lock = False, message_count = 1,
      queues = (bounded_queues 1)(0 := \<lparr>maxsize = 1, items = [order_msg ''o1'']\<rparr>)\<rparr>"
  by (simp add: full_mailbox_def one_subscriber_eq bus_defs order_msg_def bounded_queues_def)

lemma two_types_eq:
  "two_types =
     \<lparr>name = ''bus'',
      subscribers = [(ORDER, [0]), (PAYMENT, [0]), (INVENTORY, []), (SHIPPING, []), (NOTIFICATION, [])],
      lock = False, message_count = 0, queues = bounded_queues 0\<rparr>"
  by (simp add: two_types_def one_subscriber_eq bus_defs)

lemma two_subscribers_eq:
  "two_subscribers =
     \<lparr>name = ''bus'',
      subscribers = [(ORDER, [0, 1]), (PAYMENT, []), (INVENTORY, []), (SHIPPING, []), (NOTIFICATION, [])],
      lock = False, message_count = 0, queues = bounded_queues 0\<rparr>"
  by (simp add: two_subscribers_def one_subscriber_eq bus_defs)

section \<open>Fan-out of a publish\<close>

text \<open>
  C1 (as amended). A publish of a well-formed message of type \<open>t\<close>, called with the lock
  free, in a state where none of the mailboxes registered for \<open>t\<close> is full, returns; it
  has counted the message and appended it exactly once to each of those mailboxes, so the
  mailboxes whose contents changed are exactly the \<open>K\<close> registered ones. When a registered
  mailbox is full, publish blocks at the first full one in list order, holding the lock,
  and the message has reached exactly the mailboxes before it in the list.
\<close>

theorem publish_fan_out:
  assumes "bus_inv w" and "\<not> lock w" and "msg_type m = Member t"
  shows "((\<forall>q\<in>set (subs_of w t). \<not> full (queues w q)) \<longrightarrow>
            publish w m =
              Returned () (deliver (w\<lparr>message_count := message_count w + 1\<rparr>) (subs_of w t) m)
            \<and> card {q. queues (state_of (publish w m)) q \<noteq> queues w q} = length (subs_of w t))
       \<and> (\<forall>qs1 q qs2.
            subs_of w t = qs1 @ q # qs2 \<and> (\<forall>x\<in>set qs1. \<not> full (queues w x)) \<and> full (queues w q) \<longrightarrow>
            publish w m =
              Blocked (NotFull q)
                (deliver (w\<lparr>lock := True, message_count := message_count w + 1\<rparr>) qs1 m))"
proof (intro conjI impI allI)
  have dist: "distinct (subs_of w t)"
    using assms(1) by (simp add: bus_inv_def)
  {
    assume room: "\<forall>q\<in>set (subs_of w t). \<not> full (queues w q)"
    from publish_all_room [OF dist assms(2,3) room]
    show ret: "publish w m =
        Returned () (deliver (w\<lparr>message_count := message_count w + 1\<rparr>) (subs_of w t) m)" .
    have "{q. queues (state_of (publish w m)) q \<noteq> queues w q} = set (subs_of w t)"
      using deliver_changed [of "w\<lparr>message_count := message_count w + 1\<rparr>" "subs_of w t" m]
      by (simp add: ret)
    then show "card {q. queues (state_of (publish w m)) q \<noteq> queues w q} = length (subs_of w t)"
      using dist by (simp add: distinct_card)
  }
  {
    fix qs1 q qs2
    assume "subs_of w t = qs1 @ q # qs2 \<and> (\<forall>x\<in>set qs1. \<not> full (queues w x)) \<and> full (queues w q)"
    then show "publish w m =
        Blocked (NotFull q) (deliver (w\<lparr>lock := True, message_count := message_count w + 1\<rparr>) qs1 m)"
      using publish_first_full [OF dist assms(2,3), of qs1 q qs2] by simp
  }
qed

text \<open>
  C1 as stated fails: with one bounded mailbox of capacity 1 registered for orders and
  already holding one message, the next publish of an order does not return and the
  mailbox does not receive the message.
\<close>

theorem publish_fan_out_counterexample:
  "publish full_mailbox (order_msg ''o2'') =
     Blocked (NotFull 0) (full_mailbox\<lparr>lock := True, message_count := 2\<rparr>)
   \<and> subs_of full_mailbox ORDER = [0]
   \<and> items (queues full_mailbox 0) = [order_msg ''o1'']"
  by (simp add: full_mailbox_def one_subscriber_eq bus_defs subs_of_def order_msg_def bounded_queues_def)

text \<open>The theorem at both examples: an unbounded mailbox, and the full one.\<close>

theorem publish_fan_out_witness:
  "publish (one_subscriber 0) (order_msg ''o1'') =
     Returned () (deliver ((one_subscriber 0)\<lparr>message_count := 1\<rparr>) [0] (order_msg ''o1''))
   \<and> card {q. queues (state_of (publish (one_subscriber 0) (order_msg ''o1''))) q \<noteq> queues (one_subscriber 0) q} = 1
   \<and> publish full_mailbox (order_msg ''o2'') =
       Blocked (NotFull 0) (deliver (full_mailbox\<lparr>lock := True, message_count := 2\<rparr>) [] (order_msg ''o2''))"
proof -
  have a: "bus_inv (one_subscriber 0)" by (rule bus_inv_one_subscriber)
  have b: "\<not> lock (one_subscriber 0)" by (simp add: one_subscriber_eq)
  have c: "msg_type (order_msg ''o1'') = Member ORDER" by (simp add: order_msg_def)
  have s: "subs_of (one_subscriber 0) ORDER = [0]" by (simp add: one_subscriber_eq subs_of_def)
  have r: "\<forall>q\<in>set (subs_of (one_subscriber 0) ORDER). \<not> full (queues (one_subscriber 0) q)"
    by (simp add: s) (simp add: one_subscriber_eq full_def bounded_queues_def)
  have a': "bus_inv full_mailbox"
    unfolding bus_inv_def subs_of_def full_mailbox_eq by (simp add: MessageType_members_def)
  have b': "\<not> lock full_mailbox" by (simp add: full_mailbox_eq)
  have c': "msg_type (order_msg ''o2'') = Member ORDER" by (simp add: order_msg_def)
  have h': "subs_of full_mailbox ORDER = [] @ 0 # [] \<and> (\<forall>x\<in>set []. \<not> full (queues full_mailbox x))
      \<and> full (queues full_mailbox 0)"
    by (simp add: full_mailbox_eq subs_of_def full_def)
  have m': "message_count full_mailbox + 1 = 2" by (simp add: full_mailbox_eq)
  from publish_fan_out [OF a b c] r have one: "publish (one_subscriber 0) (order_msg ''o1'') =
     Returned () (deliver ((one_subscriber 0)\<lparr>message_count := message_count (one_subscriber 0) + 1\<rparr>) (subs_of (one_subscriber 0) ORDER) (order_msg ''o1''))
   \<and> card {q. queues (state_of (publish (one_subscriber 0) (order_msg ''o1''))) q \<noteq> queues (one_subscriber 0) q} = length (subs_of (one_subscriber 0) ORDER)"
    by blast
  from publish_fan_out [OF a' b' c'] h' have two: "publish full_mailbox (order_msg ''o2'') =
       Blocked (NotFull 0) (deliver (full_mailbox\<lparr>lock := True, message_count := message_count full_mailbox + 1\<rparr>) [] (order_msg ''o2''))"
    by blast
  have mc: "message_count (one_subscriber 0) + 1 = 1" by (simp add: one_subscriber_eq)
  have l: "length [0::nat] = 1" by simp
  show ?thesis
    using one two unfolding s m' mc l by blast
qed

section \<open>Order of delivery\<close>

text \<open>
  C2. Take a mailbox \<open>q\<close> that is subscribed to type \<open>t\<close>, with the lock free, and any
  sequence of calls that never unsubscribes \<open>q\<close> from \<open>t\<close>: publishes of any types, other
  subscriptions, and \<open>get\<close> calls of consumers.

  When the calls are taken one after the other and run to the end, the messages of type
  \<open>t\<close> that the consumer of \<open>q\<close> took out, followed by those still waiting in \<open>q\<close>, are the
  messages of type \<open>t\<close> that \<open>q\<close> held at the start followed by the published messages of
  type \<open>t\<close> in the order of their publish calls.

  When the steps of publishers and consumers interleave, the same holds at every moment
  with the order in which the publishes entered the critical section, up to the one
  message that the publish in progress has not yet put into \<open>q\<close>.

  A \<open>get\<close> takes the oldest message of a mailbox and a \<open>put\<close> adds behind the newest.
\<close>

theorem publish_order:
  assumes "bus_inv w" and "\<not> lock w" and "q \<in> set (subs_of w t)"
  shows "((\<forall>c\<in>set cs. c \<noteq> Unsubscribe (Member t) q) \<and> run w cs = Some (rs, w') \<longrightarrow>
            filter (of_type t) (received q cs rs @ items (queues w' q)) =
              filter (of_type t) (items (queues w q)) @ published t cs)
       \<and> ((\<forall>e\<in>set es. e \<noteq> Enter (Unsubscribe (Member t) q))
            \<and> exec (w, None) es = Some (os, (w'', p)) \<longrightarrow>
            filter (of_type t) (taken q es os @ items (queues w'' q)) @ owed t q p =
              filter (of_type t) (items (queues w q)) @ entered t es)
       \<and> (items (queues w q) = x # xs \<longrightarrow>
            get w q = Returned x (w\<lparr>queues := (queues w)(q := (queues w q)\<lparr>items := xs\<rparr>)\<rparr>))
       \<and> (\<not> full (queues w q) \<longrightarrow>
            put w q m =
              Returned () (w\<lparr>queues := (queues w)(q := (queues w q)\<lparr>items := items (queues w q) @ [m]\<rparr>)\<rparr>))"
proof (intro conjI impI)
  assume "(\<forall>c\<in>set cs. c \<noteq> Unsubscribe (Member t) q) \<and> run w cs = Some (rs, w')"
  then show "filter (of_type t) (received q cs rs @ items (queues w' q)) =
           filter (of_type t) (items (queues w q)) @ published t cs"
    using run_order [OF assms, of cs rs w'] by simp
next
  assume h: "(\<forall>e\<in>set es. e \<noteq> Enter (Unsubscribe (Member t) q))
            \<and> exec (w, None) es = Some (os, (w'', p))"
  have "conf_inv (w, None)"
    using assms(1,2) by (simp add: conf_inv_def)
  from exec_order [OF this assms(3), of es os w'' p] h
  show "filter (of_type t) (taken q es os @ items (queues w'' q)) @ owed t q p =
              filter (of_type t) (items (queues w q)) @ entered t es"
    by (simp add: owed_def)
next
  assume "items (queues w q) = x # xs"
  then show "get w q = Returned x (w\<lparr>queues := (queues w)(q := (queues w q)\<lparr>items := xs\<rparr>)\<rparr>)"
    by (simp add: get_def)
next
  assume "\<not> full (queues w q)"
  then show "put w q m =
      Returned () (w\<lparr>queues := (queues w)(q := (queues w q)\<lparr>items := items (queues w q) @ [m]\<rparr>)\<rparr>)"
    by (simp add: put_def)
qed

theorem publish_order_witness:
  "run two_types order_scenario = Some (order_replies, drained)
   \<and> received 0 order_scenario order_replies
       = [order_msg ''o1'', payment_msg ''p1'', order_msg ''o2'']
   \<and> published ORDER order_scenario = [order_msg ''o1'', order_msg ''o2'']
   \<and> filter (of_type ORDER) (received 0 order_scenario order_replies @ items (queues drained 0)) =
       filter (of_type ORDER) (items (queues two_types 0)) @ published ORDER order_scenario
   \<and> exec (two_subscribers, None) interleaving = Some (interleaving_replies, midway)
   \<and> taken 0 interleaving interleaving_replies = [order_msg ''o1'']
   \<and> owed ORDER 0 (snd midway) = [order_msg ''o2'']
   \<and> entered ORDER interleaving = [order_msg ''o1'', order_msg ''o2'']
   \<and> filter (of_type ORDER) (taken 0 interleaving interleaving_replies @ items (queues (fst midway) 0))
         @ owed ORDER 0 (snd midway) =
       filter (of_type ORDER) (items (queues two_subscribers 0)) @ entered ORDER interleaving
   \<and> get one_delivered 0 =
       Returned (order_msg ''o1'')
         (one_delivered\<lparr>queues := (queues one_delivered)(0 := (queues one_delivered 0)\<lparr>items := []\<rparr>)\<rparr>)
   \<and> put one_delivered 0 (order_msg ''o2'') =
       Returned ()
         (one_delivered\<lparr>queues := (queues one_delivered)
            (0 := (queues one_delivered 0)\<lparr>items := items (queues one_delivered 0) @ [order_msg ''o2'']\<rparr>)\<rparr>)"
proof -
  have a: "bus_inv two_types"
    unfolding bus_inv_def subs_of_def two_types_eq by (simp add: MessageType_members_def)
  have b: "\<not> lock two_types" by (simp add: two_types_eq)
  have c: "0 \<in> set (subs_of two_types ORDER)" by (simp add: two_types_eq subs_of_def)
  have d: "\<forall>c\<in>set order_scenario. c \<noteq> Unsubscribe (Member ORDER) 0"
    by (simp add: order_scenario_def)
  have r: "run two_types order_scenario = Some (order_replies, drained)"
    by (simp add: order_scenario_def order_replies_def drained_def two_types_eq bus_defs
          order_msg_def payment_msg_def bounded_queues_def)
  have g: "received 0 order_scenario order_replies
       = [order_msg ''o1'', payment_msg ''p1'', order_msg ''o2'']"
    by (simp add: order_scenario_def order_replies_def)
  have p: "published ORDER order_scenario = [order_msg ''o1'', order_msg ''o2'']"
    by (simp add: order_scenario_def order_msg_def payment_msg_def)
  note atomic = mp [OF publish_order [OF a b c, THEN conjunct1] conjI [OF d r]]
  have a2: "bus_inv two_subscribers"
    unfolding bus_inv_def subs_of_def two_subscribers_eq by (simp add: MessageType_members_def)
  have b2: "\<not> lock two_subscribers" by (simp add: two_subscribers_eq)
  have c2: "0 \<in> set (subs_of two_subscribers ORDER)" by (simp add: two_subscribers_eq subs_of_def)
  have d2: "\<forall>e\<in>set interleaving. e \<noteq> Enter (Unsubscribe (Member ORDER) 0)"
    by (simp add: interleaving_def)
  have r2: "exec (two_subscribers, None) interleaving = Some (interleaving_replies, midway)"
    by (simp add: interleaving_def interleaving_replies_def midway_def two_subscribers_eq
          enter_publish_def bus_defs order_msg_def bounded_queues_def)
  have r2': "exec (two_subscribers, None) interleaving = Some (interleaving_replies, (fst midway, snd midway))"
    by (simp add: r2)
  have g2: "taken 0 interleaving interleaving_replies = [order_msg ''o1'']"
    by (simp add: interleaving_def interleaving_replies_def)
  have o2: "owed ORDER 0 (snd midway) = [order_msg ''o2'']"
    by (simp add: midway_def owed_def order_msg_def)
  have p2: "entered ORDER interleaving = [order_msg ''o1'', order_msg ''o2'']"
    by (simp add: interleaving_def order_msg_def)
  note inter = mp [OF publish_order [OF a2 b2 c2, THEN conjunct2, THEN conjunct1] conjI [OF d2 r2']]
  have a': "bus_inv one_delivered"
    unfolding bus_inv_def subs_of_def one_delivered_def one_subscriber_eq
    by (simp add: MessageType_members_def)
  have b': "\<not> lock one_delivered" by (simp add: one_delivered_def one_subscriber_eq)
  have c': "0 \<in> set (subs_of one_delivered ORDER)"
    by (simp add: one_delivered_def one_subscriber_eq subs_of_def)
  have i': "items (queues one_delivered 0) = order_msg ''o1'' # []"
    by (simp add: one_delivered_def)
  have f': "\<not> full (queues one_delivered 0)"
    by (simp add: one_delivered_def full_def)
  note th = publish_order [OF a' b' c', where x = "order_msg ''o1''" and xs = "[]"
      and m = "order_msg ''o2''"]
  show ?thesis
    using r g p atomic r2 g2 o2 p2 inter
      mp [OF th [THEN conjunct2, THEN conjunct2, THEN conjunct1] i']
      mp [OF th [THEN conjunct2, THEN conjunct2, THEN conjunct2] f']
    by (intro conjI)
qed

section \<open>Statistics\<close>

text \<open>
  C3 (as amended). Called with the lock free, \<open>get_stats\<close> returns a dictionary that
  gives, under the display label of each of the five message types, the current length of
  that type's subscriber list; all five are read in one critical section and the state is
  left as it was. The result holds nothing else: it is the same whatever the value of
  \<open>message_count\<close>, which callers read from the bus attribute.
\<close>

theorem get_stats_counts:
  assumes "bus_inv w" and "\<not> lock w"
  shows "get_stats w =
           Returned (map (\<lambda>t. (MessageType_value t, int (length (subs_of w t)))) MessageType_members) w
         \<and> map_of (the (returned (get_stats w))) (MessageType_value t) = Some (int (length (subs_of w t)))
         \<and> returned (get_stats (w\<lparr>message_count := c\<rparr>)) = returned (get_stats w)"
proof -
  have inv': "bus_inv (w\<lparr>message_count := c\<rparr>)" and lock': "\<not> lock (w\<lparr>message_count := c\<rparr>)"
    using assms by (simp_all add: bus_inv_def subs_of_def)
  have subs': "subs_of (w\<lparr>message_count := c\<rparr>) = subs_of w"
    by (simp add: subs_of_def fun_eq_iff)
  have "map_of (map (\<lambda>t. (MessageType_value t, int (length (subs_of w t)))) MessageType_members)
          (MessageType_value t) = Some (int (length (subs_of w t)))"
    by (cases t) (simp_all add: MessageType_members_def)
  then show ?thesis
    by (simp add: get_stats_value [OF assms] get_stats_value [OF inv' lock'] subs')
qed

text \<open>
  C3 as stated fails: the value returned after one publish is the value returned before
  it, although the count of published messages went from 0 to 1, so the count is not
  part of what \<open>get_stats\<close> returns.
\<close>

theorem get_stats_counterexample:
  "returned (get_stats (state_of (publish (one_subscriber 0) (order_msg ''o1'')))) =
     returned (get_stats (one_subscriber 0))
   \<and> returned (get_stats (one_subscriber 0)) =
       Some [(MessageType_value ORDER, 1), (MessageType_value PAYMENT, 0),
             (MessageType_value INVENTORY, 0), (MessageType_value SHIPPING, 0),
             (MessageType_value NOTIFICATION, 0)]
   \<and> message_count (one_subscriber 0) = 0
   \<and> message_count (state_of (publish (one_subscriber 0) (order_msg ''o1''))) = 1"
  by (simp add: one_subscriber_eq bus_defs order_msg_def bounded_queues_def)

theorem get_stats_counts_witness:
  "get_stats (one_subscriber 0) =
     Returned [(MessageType_value ORDER, 1), (MessageType_value PAYMENT, 0),
               (MessageType_value INVENTORY, 0), (MessageType_value SHIPPING, 0),
               (MessageType_value NOTIFICATION, 0)] (one_subscriber 0)
   \<and> map_of (the (returned (get_stats (one_subscriber 0)))) (MessageType_value ORDER) = Some 1
   \<and> returned (get_stats ((one_subscriber 0)\<lparr>message_count := 5\<rparr>)) = returned (get_stats (one_subscriber 0))"
proof -
  have a: "bus_inv (one_subscriber 0)" by (rule bus_inv_one_subscriber)
  have b: "\<not> lock (one_subscriber 0)" by (simp add: one_subscriber_eq)
  have s: "map (\<lambda>t. (MessageType_value t, int (length (subs_of (one_subscriber 0) t)))) MessageType_members
      = [(MessageType_value ORDER, 1), (MessageType_value PAYMENT, 0),
               (MessageType_value INVENTORY, 0), (MessageType_value SHIPPING, 0),
               (MessageType_value NOTIFICATION, 0)]"
    by (simp add: one_subscriber_eq subs_of_def MessageType_members_def)
  have l: "int (length (subs_of (one_subscriber 0) ORDER)) = 1"
    by (simp add: one_subscriber_eq subs_of_def)
  show ?thesis
    using get_stats_counts [OF a b, of ORDER 5] unfolding s l by blast
qed

section \<open>Values that are not message types\<close>

text \<open>
  C4 (as amended). With the lock free and \<open>x\<close> not a member of \<^verbatim>\<open>MessageType\<close>:
  \<open>subscribe\<close> and \<open>unsubscribe\<close> raise (\<^verbatim>\<open>KeyError\<close>, or \<^verbatim>\<open>TypeError\<close> for an unhashable
  value) and leave the state as it was. \<open>publish\<close> of a message of type \<open>x\<close> is not
  rejected by the lookup: it counts the message, looks the type up with the default
  \<open>[]\<close>, and puts it in no mailbox; registry and mailboxes are unchanged, the count is one
  higher. It returns when \<open>x\<close> is hashable and has a \<^verbatim>\<open>.value\<close>, and otherwise raises after
  the increment.
\<close>

theorem nonmember_type:
  assumes "\<not> lock w" and "\<forall>t. x \<noteq> Member t"
  shows "subscribe w x q = Raised (if hashable x then KeyError else TypeError) w
       \<and> unsubscribe w x q = Raised (if hashable x then KeyError else TypeError) w
       \<and> (msg_type m = x \<longrightarrow>
            state_of (publish w m) = w\<lparr>message_count := message_count w + 1\<rparr>
          \<and> (returned (publish w m) = Some () \<longleftrightarrow> hashable x \<and> (\<exists>v. value_attr x = Inr v)))"
proof (intro conjI impI)
  show "subscribe w x q = Raised (if hashable x then KeyError else TypeError) w"
    using assms by (rule subscribe_nonmember)
  show "unsubscribe w x q = Raised (if hashable x then KeyError else TypeError) w"
    using assms by (rule unsubscribe_nonmember)
next
  assume mx: "msg_type m = x"
  then have nm: "\<forall>t. msg_type m \<noteq> Member t"
    using assms(2) by simp
  show "state_of (publish w m) = w\<lparr>message_count := message_count w + 1\<rparr>"
    by (simp add: publish_nonmember [OF assms(1) nm] split: sum.splits)
  show "returned (publish w m) = Some () \<longleftrightarrow> hashable x \<and> (\<exists>v. value_attr x = Inr v)"
    using mx by (auto simp: publish_nonmember [OF assms(1) nm] split: sum.splits)
qed

text \<open>
  C4 as stated fails for \<open>publish\<close>. A message whose type is a member of another
  enumeration is accepted without any error and changes the count; a message whose type
  is a string raises only when the diagnostic line is formatted, after the count changed.
\<close>

theorem nonmember_type_counterexample:
  "publish (one_subscriber 0) foreign_msg = Returned () ((one_subscriber 0)\<lparr>message_count := 1\<rparr>)
   \<and> publish (one_subscriber 0) string_msg =
       Raised AttributeError ((one_subscriber 0)\<lparr>message_count := 1\<rparr>)
   \<and> (one_subscriber 0)\<lparr>message_count := 1\<rparr> \<noteq> one_subscriber 0"
proof -
  have "message_count ((one_subscriber 0)\<lparr>message_count := 1\<rparr>) \<noteq> message_count (one_subscriber 0)"
    by (simp add: one_subscriber_eq)
  then have "(one_subscriber 0)\<lparr>message_count := 1\<rparr> \<noteq> one_subscriber 0"
    by metis
  then show ?thesis
    by (simp add: one_subscriber_eq bus_defs foreign_msg_def string_msg_def)
qed

theorem nonmember_type_witness:
  "subscribe (one_subscriber 0) (PyStr ''ORDER'') 1 = Raised KeyError (one_subscriber 0)
   \<and> unsubscribe (one_subscriber 0) (PyStr ''ORDER'') 1 = Raised KeyError (one_subscriber 0)
   \<and> state_of (publish (one_subscriber 0) string_msg) = (one_subscriber 0)\<lparr>message_count := 1\<rparr>
   \<and> returned (publish (one_subscriber 0) string_msg) \<noteq> Some ()"
proof -
  have a: "\<not> lock (one_subscriber 0)" by (simp add: one_subscriber_eq)
  have b: "\<forall>t. PyStr ''ORDER'' \<noteq> Member t" by simp
  have c: "msg_type string_msg = PyStr ''ORDER''" by (simp add: string_msg_def)
  have d: "message_count (one_subscriber 0) + 1 = 1" by (simp add: one_subscriber_eq)
  show ?thesis
    using nonmember_type [OF a b, of 1 string_msg] c unfolding d by simp
qed

section \<open>The count of published messages\<close>

text \<open>
  C5. A publish that returns leaves \<open>message_count\<close> exactly one higher; subscribe,
  unsubscribe and get_stats leave it as it was, whatever their outcome; and after any
  sequence of calls on a new bus that runs to its end, \<open>message_count\<close> is the number of
  publish calls in the sequence.
\<close>

theorem published_count:
  "(publish w m = Returned () w' \<longrightarrow> message_count w' = message_count w + 1)
   \<and> message_count (state_of (subscribe w x q)) = message_count w
   \<and> message_count (state_of (unsubscribe w x q)) = message_count w
   \<and> message_count (state_of (get_stats w)) = message_count w
   \<and> (run (MessageBus nm h) cs = Some (rs, w'') \<longrightarrow>
        message_count w'' = int (length (filter is_publish cs)))"
proof (intro conjI impI)
  assume ret: "publish w m = Returned () w'"
  then have "\<not> lock w"
    using with_lock_done [of "publish_body m" w "()" w'] by (simp add: publish_def)
  then show "message_count w' = message_count w + 1"
    using publish_frame(3) [of w m] ret by simp
next
  assume "run (MessageBus nm h) cs = Some (rs, w'')"
  from run_count [OF _ this] show "message_count w'' = int (length (filter is_publish cs))"
    by (simp add: MessageBus_def)
qed (simp_all add: subscribe_frame unsubscribe_frame get_stats_frame)

theorem published_count_witness:
  "publish (one_subscriber 0) (order_msg ''o1'') =
     Returned () ((one_subscriber 0)\<lparr>message_count := 1,
        queues := (bounded_queues 0)(0 := \<lparr>maxsize = 0, items = [order_msg ''o1'']\<rparr>)\<rparr>)
   \<and> run (MessageBus ''bus'' (bounded_queues 0))
        [Subscribe (Member ORDER) 0, Publish (order_msg ''o1''), Get_stats, Publish string_msg,
         Publish (order_msg ''o2'')] =
      Some ([Ret RNone, Ret RNone,
             Ret (RStats [(MessageType_value ORDER, 1), (MessageType_value PAYMENT, 0),
               (MessageType_value INVENTORY, 0), (MessageType_value SHIPPING, 0),
               (MessageType_value NOTIFICATION, 0)]),
             Exc AttributeError, Ret RNone],
            (one_subscriber 0)\<lparr>message_count := 3,
              queues := (bounded_queues 0)(0 := \<lparr>maxsize = 0, items = [order_msg ''o1'', order_msg ''o2'']\<rparr>)\<rparr>)
   \<and> message_count ((one_subscriber 0)\<lparr>message_count := 1,
        queues := (bounded_queues 0)(0 := \<lparr>maxsize = 0, items = [order_msg ''o1'']\<rparr>)\<rparr>)
       = message_count (one_subscriber 0) + 1
   \<and> message_count ((one_subscriber 0)\<lparr>message_count := 3,
              queues := (bounded_queues 0)(0 := \<lparr>maxsize = 0, items = [order_msg ''o1'', order_msg ''o2'']\<rparr>)\<rparr>)
       = int (length (filter is_publish
        [Subscribe (Member ORDER) 0, Publish (order_msg ''o1''), Get_stats, Publish string_msg,
         Publish (order_msg ''o2'')]))"
proof -
  have p: "publish (one_subscriber 0) (order_msg ''o1'') =
     Returned () ((one_subscriber 0)\<lparr>message_count := 1,
        queues := (bounded_queues 0)(0 := \<lparr>maxsize = 0, items = [order_msg ''o1'']\<rparr>)\<rparr>)"
    by (simp add: one_subscriber_eq bus_defs order_msg_def bounded_queues_def)
  have r: "run (MessageBus ''bus'' (bounded_queues 0))
        [Subscribe (Member ORDER) 0, Publish (order_msg ''o1''), Get_stats, Publish string_msg,
         Publish (order_msg ''o2'')] =
      Some ([Ret RNone, Ret RNone,
             Ret (RStats [(MessageType_value ORDER, 1), (MessageType_value PAYMENT, 0),
               (MessageType_value INVENTORY, 0), (MessageType_value SHIPPING, 0),
               (MessageType_value NOTIFICATION, 0)]),
             Exc AttributeError, Ret RNone],
            (one_subscriber 0)\<lparr>message_count := 3,
              queues := (bounded_queues 0)(0 := \<lparr>maxsize = 0, items = [order_msg ''o1'', order_msg ''o2'']\<rparr>)\<rparr>)"
    by (simp add: one_subscriber_eq bus_defs order_msg_def string_msg_def bounded_queues_def)
  show ?thesis
    using published_count [of "one_subscriber 0" "order_msg ''o1''" _ _ _ "''bus''" "bounded_queues 0"] p r
    by blast
qed

section \<open>The registry invariant\<close>

text \<open>
  C6. After any sequence of calls on a new bus that runs to its end, the registry still
  has its five keys and no subscriber list holds a mailbox twice. A subscribe of a mailbox
  that is already in the list of its type returns and changes nothing; so after the same
  mailbox was subscribed twice to a type, a publish of that type that returns has added
  exactly one copy of the message to it. And no call other than \<open>unsubscribe(t, q)\<close>,
  whatever its outcome, takes \<open>q\<close> out of the list of \<open>t\<close>.
\<close>

theorem registry_invariant:
  "(run (MessageBus nm h) cs = Some (rs, w') \<longrightarrow> bus_inv w' \<and> distinct (subs_of w' t))
   \<and> (bus_inv w \<and> \<not> lock w \<and> q \<in> set (subs_of w t) \<longrightarrow>
        subscribe w (Member t) q = Returned () w)
   \<and> (bus_inv w \<and> \<not> lock w \<and> msg_type m = Member t
        \<and> publish (state_of (subscribe (state_of (subscribe w (Member t) q)) (Member t) q)) m
            = Returned () w3 \<longrightarrow>
        items (queues w3 q) = items (queues w q) @ [m])
   \<and> (c \<noteq> Unsubscribe (Member t) q \<and> q \<in> set (subs_of w t) \<longrightarrow>
        q \<in> set (subs_of (state_of (exec_call w c)) t))"
proof (intro conjI impI)
  assume "run (MessageBus nm h) cs = Some (rs, w')"
  from run_inv [OF bus_inv_init this] show "bus_inv w'" .
  then show "distinct (subs_of w' t)" by (simp add: bus_inv_def)
next
  assume h: "bus_inv w \<and> \<not> lock w \<and> q \<in> set (subs_of w t)"
  then have "map_of (subscribers w) t = Some (subs_of w t)" by (simp add: inv_lookup)
  from subscribe_member [OF _ this, of q] h show "subscribe w (Member t) q = Returned () w"
    by simp
next
  assume h: "bus_inv w \<and> \<not> lock w \<and> msg_type m = Member t
        \<and> publish (state_of (subscribe (state_of (subscribe w (Member t) q)) (Member t) q)) m
            = Returned () w3"
  let ?w1 = "state_of (subscribe w (Member t) q)"
  have look: "map_of (subscribers w) t = Some (subs_of w t)"
    using h by (simp add: inv_lookup)
  have inv1: "bus_inv ?w1"
    using bus_inv_exec_call [of w "Subscribe (Member t) q"] h by (simp add: state_of_with_ret)
  have free1: "\<not> lock ?w1"
    using subscribe_member [OF _ look, of q] h by (simp split: if_splits)
  have in1: "q \<in> set (subs_of ?w1 t)"
    using h look by (simp add: subs_of_subscribe)
  have look1: "map_of (subscribers ?w1) t = Some (subs_of ?w1 t)"
    using inv1 by (rule inv_lookup)
  have again: "subscribe ?w1 (Member t) q = Returned () ?w1"
    using subscribe_member [OF free1 look1, of q] in1 by simp
  have dist1: "distinct (subs_of ?w1 t)"
    using inv1 by (simp add: bus_inv_def)
  have "publish ?w1 m = Returned () w3"
    using h by (simp add: again)
  from publish_returned [OF dist1 free1 _ this] h
  have "w3 = deliver (?w1\<lparr>message_count := message_count ?w1 + 1\<rparr>) (subs_of ?w1 t) m"
    by simp
  then have "items (queues w3 q) = items (queues ?w1 q) @ [m]"
    using in1 by (simp add: items_deliver)
  then show "items (queues w3 q) = items (queues w q) @ [m]"
    by (simp add: subscribe_frame)
next
  assume "c \<noteq> Unsubscribe (Member t) q \<and> q \<in> set (subs_of w t)"
  then show "q \<in> set (subs_of (state_of (exec_call w c)) t)"
    using stays_subscribed by blast
qed

theorem registry_invariant_witness:
  "run (MessageBus ''bus'' (bounded_queues 0))
     [Subscribe (Member ORDER) 0, Subscribe (Member ORDER) 0, Publish (order_msg ''o1'')]
     = Some ([Ret RNone, Ret RNone, Ret RNone], one_delivered)
   \<and> bus_inv one_delivered \<and> distinct (subs_of one_delivered ORDER)
   \<and> subscribe (one_subscriber 0) (Member ORDER) 0 = Returned () (one_subscriber 0)
   \<and> items (queues one_delivered 0) = items (queues (one_subscriber 0) 0) @ [order_msg ''o1'']
   \<and> 0 \<in> set (subs_of (state_of (exec_call (one_subscriber 0) (Publish (order_msg ''o1'')))) ORDER)"
proof -
  have r: "run (MessageBus ''bus'' (bounded_queues 0))
     [Subscribe (Member ORDER) 0, Subscribe (Member ORDER) 0, Publish (order_msg ''o1'')]
     = Some ([Ret RNone, Ret RNone, Ret RNone], one_delivered)"
    by (simp add: one_delivered_def one_subscriber_eq bus_defs order_msg_def bounded_queues_def)
  have a: "bus_inv (one_subscriber 0)" by (rule bus_inv_one_subscriber)
  have b: "\<not> lock (one_subscriber 0)" by (simp add: one_subscriber_eq)
  have i: "0 \<in> set (subs_of (one_subscriber 0) ORDER)"
    by (simp add: one_subscriber_eq subs_of_def)
  have t: "msg_type (order_msg ''o1'') = Member ORDER" by (simp add: order_msg_def)
  have p: "publish (state_of (subscribe (state_of (subscribe (one_subscriber 0) (Member ORDER) 0))
              (Member ORDER) 0)) (order_msg ''o1'') = Returned () one_delivered"
    by (simp add: one_delivered_def one_subscriber_eq bus_defs order_msg_def bounded_queues_def)
  have c: "Publish (order_msg ''o1'') \<noteq> Unsubscribe (Member ORDER) 0" by simp
  show ?thesis
    using registry_invariant [where nm = "''bus''" and h = "bounded_queues 0"
        and cs = "[Subscribe (Member ORDER) 0, Subscribe (Member ORDER) 0, Publish (order_msg ''o1'')]"
        and rs = "[Ret RNone, Ret RNone, Ret RNone]" and w' = one_delivered and t = ORDER
        and w = "one_subscriber 0" and q = 0 and m = "order_msg ''o1''" and ?w3.0 = one_delivered
        and c = "Publish (order_msg ''o1'')"]
      r a b i t p c
    by blast
qed

section \<open>Unsubscribe\<close>

text \<open>
  C7. With the lock free, \<open>unsubscribe(t, q)\<close> returns: when \<open>q\<close> is in the list of \<open>t\<close> it
  is taken out of that list (the rest of the list keeps its order, the lists of other
  types are as before), and when it is absent the state is unchanged and nothing is
  raised. Afterwards \<open>q\<close> is not in the list of \<open>t\<close>, and after any further calls that
  do not subscribe \<open>q\<close> to \<open>t\<close> again, a publish of type \<open>t\<close> leaves mailbox \<open>q\<close> as it
  finds it.
\<close>

theorem unsubscribe_effect:
  assumes "bus_inv w" and "\<not> lock w"
  shows "unsubscribe w (Member t) q =
           Returned () (if q \<in> set (subs_of w t)
                        then w\<lparr>subscribers := AList.update t (remove1 q (subs_of w t)) (subscribers w)\<rparr>
                        else w)
       \<and> subs_of (state_of (unsubscribe w (Member t) q)) t = removeAll q (subs_of w t)
       \<and> (t' \<noteq> t \<longrightarrow> subs_of (state_of (unsubscribe w (Member t) q)) t' = subs_of w t')
       \<and> ((\<forall>c\<in>set cs. c \<noteq> Subscribe (Member t) q)
            \<and> run (state_of (unsubscribe w (Member t) q)) cs = Some (rs, w2)
            \<and> msg_type m = Member t \<longrightarrow>
          q \<notin> set (subs_of w2 t) \<and> queues (state_of (publish w2 m)) q = queues w2 q)"
proof (intro conjI impI)
  let ?w1 = "state_of (unsubscribe w (Member t) q)"
  have look: "map_of (subscribers w) t = Some (subs_of w t)"
    using assms(1) by (rule inv_lookup)
  show "unsubscribe w (Member t) q =
           Returned () (if q \<in> set (subs_of w t)
                        then w\<lparr>subscribers := AList.update t (remove1 q (subs_of w t)) (subscribers w)\<rparr>
                        else w)"
    using assms(2) look by (rule unsubscribe_member)
  have dist: "distinct (subs_of w t)"
    using assms(1) by (simp add: bus_inv_def)
  show gone: "subs_of ?w1 t = removeAll q (subs_of w t)"
    using assms(2) dist by (simp add: subs_of_unsubscribe distinct_remove1_removeAll)
  {
    assume "t' \<noteq> t"
    then show "subs_of ?w1 t' = subs_of w t'"
      by (auto simp: subs_of_unsubscribe)
  }
  {
    assume h: "(\<forall>c\<in>set cs. c \<noteq> Subscribe (Member t) q)
            \<and> run ?w1 cs = Some (rs, w2) \<and> msg_type m = Member t"
    have "q \<notin> set (subs_of ?w1 t)"
      by (simp add: gone)
    from run_stays_unsubscribed [OF this, of cs rs w2] h
    show out: "q \<notin> set (subs_of w2 t)" by simp
    then have "q \<notin> set (targets w2 m)"
      using h by (simp add: targets_def)
    then show "queues (state_of (publish w2 m)) q = queues w2 q"
      by (rule publish_untouched)
  }
qed

theorem unsubscribe_effect_witness:
  "unsubscribe (one_subscriber 0) (Member ORDER) 0 = Returned () (MessageBus ''bus'' (bounded_queues 0))
   \<and> unsubscribe (one_subscriber 0) (Member ORDER) 3 = Returned () (one_subscriber 0)
   \<and> subs_of (state_of (unsubscribe (one_subscriber 0) (Member ORDER) 0)) ORDER = []
   \<and> subs_of (state_of (unsubscribe (one_subscriber 0) (Member PAYMENT) 0)) ORDER = [0]
   \<and> run (state_of (unsubscribe (one_subscriber 0) (Member ORDER) 0))
        [Subscribe (Member PAYMENT) 0, Publish (payment_msg ''p1'')] =
      Some ([Ret RNone, Ret RNone],
        \<lparr>name = ''bus'',
         subscribers = [(ORDER, []), (PAYMENT, [0]), (INVENTORY, []), (SHIPPING, []), (NOTIFICATION, [])],
         lock = False, message_count = 1,
         queues = (bounded_queues 0)(0 := \<lparr>maxsize = 0, items = [payment_msg ''p1'']\<rparr>)\<rparr>)
   \<and> queues
        (state_of (publish
          \<lparr>name = ''bus'',
           subscribers = [(ORDER, []), (PAYMENT, [0]), (INVENTORY, []), (SHIPPING, []), (NOTIFICATION, [])],
           lock = False, message_count = 1,
           queues = (bounded_queues 0)(0 := \<lparr>maxsize = 0, items = [payment_msg ''p1'']\<rparr>)\<rparr>
          (order_msg ''o1''))) 0
       = \<lparr>maxsize = 0, items = [payment_msg ''p1'']\<rparr>"
proof -
  let ?w2 = "\<lparr>name = ''bus'',
         subscribers = [(ORDER, []), (PAYMENT, [0]), (INVENTORY, []), (SHIPPING, []), (NOTIFICATION, [])],
         lock = False, message_count = 1,
         queues = (bounded_queues 0)(0 := \<lparr>maxsize = 0, items = [payment_msg ''p1'']\<rparr>)\<rparr>"
  have a: "bus_inv (one_subscriber 0)" by (rule bus_inv_one_subscriber)
  have b: "\<not> lock (one_subscriber 0)" by (simp add: one_subscriber_eq)
  have s: "subs_of (one_subscriber 0) ORDER = [0]" by (simp add: one_subscriber_eq subs_of_def)
  have u: "(one_subscriber 0)\<lparr>subscribers := AList.update ORDER (remove1 0 [0]) (subscribers (one_subscriber 0))\<rparr>
      = MessageBus ''bus'' (bounded_queues 0)"
    by (simp add: one_subscriber_eq MessageBus_def MessageType_members_def)
  have cs: "\<forall>c\<in>set [Subscribe (Member PAYMENT) 0, Publish (payment_msg ''p1'')].
      c \<noteq> Subscribe (Member ORDER) 0"
    by simp
  have r: "run (state_of (unsubscribe (one_subscriber 0) (Member ORDER) 0))
        [Subscribe (Member PAYMENT) 0, Publish (payment_msg ''p1'')] = Some ([Ret RNone, Ret RNone], ?w2)"
    by (simp add: one_subscriber_eq bus_defs payment_msg_def bounded_queues_def)
  have t: "msg_type (order_msg ''o1'') = Member ORDER" by (simp add: order_msg_def)
  have n: "PAYMENT \<noteq> ORDER" by simp
  have q2: "queues ?w2 0 = \<lparr>maxsize = 0, items = [payment_msg ''p1'']\<rparr>" by simp
  note th = unsubscribe_effect [OF a b, where t = ORDER and q = 0 and t' = PAYMENT
        and cs = "[Subscribe (Member PAYMENT) 0, Publish (payment_msg ''p1'')]"
        and rs = "[Ret RNone, Ret RNone]" and ?w2.0 = ?w2 and m = "order_msg ''o1''"]
  have first: "unsubscribe (one_subscriber 0) (Member ORDER) 0 = Returned () (MessageBus ''bus'' (bounded_queues 0))"
    using th [THEN conjunct1] unfolding s u by simp
  have third: "subs_of (state_of (unsubscribe (one_subscriber 0) (Member ORDER) 0)) ORDER = []"
    using th [THEN conjunct2, THEN conjunct1] unfolding s by simp
  have last: "queues (state_of (publish ?w2 (order_msg ''o1''))) 0 = queues ?w2 0"
    using mp [OF th [THEN conjunct2, THEN conjunct2, THEN conjunct2] conjI [OF cs conjI [OF r t]]]
    by (rule conjunct2)
  note th3 = unsubscribe_effect [OF a b, where t = ORDER and q = 3]
  have s3: "3 \<notin> set (subs_of (one_subscriber 0) ORDER)" unfolding s by simp
  have second: "unsubscribe (one_subscriber 0) (Member ORDER) 3 = Returned () (one_subscriber 0)"
    using th3 [THEN conjunct1] s3 by (simp only: if_False)
  note th4 = unsubscribe_effect [OF a b, where t = PAYMENT and q = 0 and t' = ORDER]
  have fourth: "subs_of (state_of (unsubscribe (one_subscriber 0) (Member PAYMENT) 0)) ORDER = [0]"
    using mp [OF th4 [THEN conjunct2, THEN conjunct2, THEN conjunct1]] unfolding s by simp
  show ?thesis
    using first second third fourth r last unfolding q2 by (intro conjI)
qed

section \<open>The bus and the contents of the mailboxes\<close>

text \<open>
  C8. In every state and whatever the outcome of the call: subscribe, unsubscribe and
  get_stats leave the store of mailboxes as it was. A publish of \<open>m\<close> leaves every
  mailbox that is not registered for the type of \<open>m\<close> as it was (all of them when the
  type is not a member); of any mailbox it keeps the capacity and the contents it found,
  in their order, and at most adds copies of \<open>m\<close> behind them. Nothing is ever taken out.
\<close>

theorem bus_frame:
  "queues (state_of (subscribe w x q)) = queues w
   \<and> queues (state_of (unsubscribe w x q)) = queues w
   \<and> queues (state_of (get_stats w)) = queues w
   \<and> (q' \<notin> set (targets w m) \<longrightarrow> queues (state_of (publish w m)) q' = queues w q')
   \<and> ((\<forall>t. msg_type m \<noteq> Member t) \<longrightarrow> queues (state_of (publish w m)) = queues w)
   \<and> maxsize (queues (state_of (publish w m)) q') = maxsize (queues w q')
   \<and> (\<exists>k. items (queues (state_of (publish w m)) q') = items (queues w q') @ replicate k m)"
proof (cases "lock w")
  case True
  have "items (queues w q') = items (queues w q') @ replicate 0 m" by simp
  then have "\<exists>k. items (queues w q') = items (queues w q') @ replicate k m" ..
  then show ?thesis
    using True by (simp add: subscribe_frame unsubscribe_frame get_stats_frame publish_held)
next
  case False
  let ?w1 = "w\<lparr>lock := True, message_count := message_count w + 1\<rparr>"
  note pq = publish_queues [OF False, of m]
  from put_all_queues [of q' "targets w m" ?w1 m]
  have a: "q' \<notin> set (targets w m) \<longrightarrow> queues (state_of (publish w m)) q' = queues w q'"
    and b: "maxsize (queues (state_of (publish w m)) q') = maxsize (queues w q')"
    and c: "\<exists>k. items (queues (state_of (publish w m)) q') = items (queues w q') @ replicate k m"
    by (simp_all add: pq)
  have d: "(\<forall>t. msg_type m \<noteq> Member t) \<longrightarrow> queues (state_of (publish w m)) = queues w"
  proof
    assume "\<forall>t. msg_type m \<noteq> Member t"
    then have "targets w m = []"
      by (cases "msg_type m") (simp_all add: targets_def)
    then show "queues (state_of (publish w m)) = queues w"
      by (simp add: pq)
  qed
  show ?thesis
    using a b c d by (simp add: subscribe_frame unsubscribe_frame get_stats_frame)
qed

theorem bus_frame_witness:
  "queues (state_of (publish (one_subscriber 0) (order_msg ''o1''))) 1 = queues (one_subscriber 0) 1
   \<and> queues (state_of (publish (one_subscriber 0) foreign_msg)) = queues (one_subscriber 0)
   \<and> queues (state_of (subscribe (one_subscriber 0) (Member PAYMENT) 0)) = queues (one_subscriber 0)"
proof -
  have a: "1 \<notin> set (targets (one_subscriber 0) (order_msg ''o1''))"
    by (simp add: targets_def order_msg_def subs_of_def one_subscriber_eq)
  have b: "\<forall>t. msg_type foreign_msg \<noteq> Member t"
    by (simp add: foreign_msg_def)
  show ?thesis
    using bus_frame [of "one_subscriber 0" "Member PAYMENT" 0 1 "order_msg ''o1''"]
      bus_frame [of "one_subscriber 0" "Member PAYMENT" 0 1 foreign_msg] a b
    by blast
qed

section \<open>The lock during the fan-out\<close>

text \<open>
  C9 (as amended). The loop that puts the message into the mailboxes is inside
  \<^verbatim>\<open>with self.lock:\<close>, like the increment and the lookup. So when a publish that took the
  free lock blocks, it blocks on a full mailbox registered for the message's type and the
  lock is held in the state it waits in. In a state with the lock held, every subscribe,
  unsubscribe, publish and get_stats, of whatever type, blocks on the lock and changes
  nothing. A consumer's \<open>get\<close> does not take the lock: it still takes the oldest message
  out of its mailbox, which is what lets the blocked publish go on.

  In an interleaved execution from a state with the lock free, the lock is held exactly
  while a publish is in progress, that is from its entry until after its last \<open>put\<close>;
  and while the mailbox it has to serve next is full, neither its own next step nor any
  subscribe, unsubscribe, publish or get_stats of another caller is enabled.
\<close>

theorem enqueue_under_lock:
  "(\<not> lock w \<and> publish w m = Blocked b w1 \<longrightarrow>
      lock w1 \<and> (\<exists>q\<in>set (targets w m). b = NotFull q \<and> full (queues w1 q)))
   \<and> (lock w1 \<longrightarrow>
        subscribe w1 x q' = Blocked OnLock w1 \<and> unsubscribe w1 x q' = Blocked OnLock w1
      \<and> publish w1 m' = Blocked OnLock w1 \<and> get_stats w1 = Blocked OnLock w1)
   \<and> (items (queues w1 q') = y # ys \<longrightarrow>
        get w1 q' = Returned y (w1\<lparr>queues := (queues w1)(q' := (queues w1 q')\<lparr>items := ys\<rparr>)\<rparr>))
   \<and> (bus_inv w0 \<and> \<not> lock w0 \<and> exec (w0, None) es = Some (os, (w2, p)) \<longrightarrow>
        (lock w2 \<longleftrightarrow> p \<noteq> None))
   \<and> (lock w2 \<and> full (queues w2 q) \<longrightarrow>
        step (w2, Some (m, q # qs)) Deliver = None
      \<and> step (w2, Some (m, q # qs)) (Enter (Subscribe x q')) = None
      \<and> step (w2, Some (m, q # qs)) (Enter (Unsubscribe x q')) = None
      \<and> step (w2, Some (m, q # qs)) (Enter (Publish m')) = None
      \<and> step (w2, Some (m, q # qs)) (Enter Get_stats) = None)"
proof (intro conjI impI)
  assume h: "\<not> lock w \<and> publish w m = Blocked b w1"
  then have "(\<exists>q\<in>set (targets w m). b = NotFull q \<and> full (queues w1 q)) \<and> lock w1"
    using publish_blocked [of w m b w1] by simp
  then show "lock w1" and "\<exists>q\<in>set (targets w m). b = NotFull q \<and> full (queues w1 q)"
    by simp_all
next
  assume "items (queues w1 q') = y # ys"
  then show "get w1 q' = Returned y (w1\<lparr>queues := (queues w1)(q' := (queues w1 q')\<lparr>items := ys\<rparr>)\<rparr>)"
    by (simp add: get_def)
next
  assume h: "bus_inv w0 \<and> \<not> lock w0 \<and> exec (w0, None) es = Some (os, (w2, p))"
  then have "conf_inv (w0, None)"
    by (simp add: conf_inv_def)
  from exec_conf_inv [OF this, of es os "(w2, p)"] h have "conf_inv (w2, p)"
    by simp
  then show "lock w2 \<longleftrightarrow> p \<noteq> None"
    by (rule lock_iff_in_progress)
next
  assume "lock w2 \<and> full (queues w2 q)"
  then show "step (w2, Some (m, q # qs)) Deliver = None"
    by (simp add: put_def)
qed (simp_all add: subscribe_def unsubscribe_def publish_def get_stats_def with_lock_held)

text \<open>
  C9 as stated fails: a publish of an order blocked on the full mailbox 0 holds the lock,
  and in that state a subscribe to payments, an unsubscribe and a publish of a payment
  (a type with no subscriber at all) cannot proceed.
\<close>

theorem enqueue_under_lock_counterexample:
  "publish full_mailbox (order_msg ''o2'') =
     Blocked (NotFull 0) (full_mailbox\<lparr>lock := True, message_count := 2\<rparr>)
   \<and> lock (full_mailbox\<lparr>lock := True, message_count := 2\<rparr>)
   \<and> subs_of (full_mailbox\<lparr>lock := True, message_count := 2\<rparr>) PAYMENT = []
   \<and> subscribe (full_mailbox\<lparr>lock := True, message_count := 2\<rparr>) (Member PAYMENT) 1 =
       Blocked OnLock (full_mailbox\<lparr>lock := True, message_count := 2\<rparr>)
   \<and> unsubscribe (full_mailbox\<lparr>lock := True, message_count := 2\<rparr>) (Member ORDER) 0 =
       Blocked OnLock (full_mailbox\<lparr>lock := True, message_count := 2\<rparr>)
   \<and> publish (full_mailbox\<lparr>lock := True, message_count := 2\<rparr>) (payment_msg ''p1'') =
       Blocked OnLock (full_mailbox\<lparr>lock := True, message_count := 2\<rparr>)"
  by (simp add: full_mailbox_def one_subscriber_eq bus_defs subs_of_def order_msg_def
        payment_msg_def bounded_queues_def)

theorem enqueue_under_lock_witness:
  "publish full_mailbox (order_msg ''o2'') =
     Blocked (NotFull 0) (full_mailbox\<lparr>lock := True, message_count := 2\<rparr>)
   \<and> lock (full_mailbox\<lparr>lock := True, message_count := 2\<rparr>)
   \<and> subscribe (full_mailbox\<lparr>lock := True, message_count := 2\<rparr>) (Member PAYMENT) 1 =
       Blocked OnLock (full_mailbox\<lparr>lock := True, message_count := 2\<rparr>)
   \<and> get_stats (full_mailbox\<lparr>lock := True, message_count := 2\<rparr>) =
       Blocked OnLock (full_mailbox\<lparr>lock := True, message_count := 2\<rparr>)
   \<and> get (full_mailbox\<lparr>lock := True, message_count := 2\<rparr>) 0 =
       Returned (order_msg ''o1'')
         ((full_mailbox\<lparr>lock := True, message_count := 2\<rparr>)
            \<lparr>queues := (queues (full_mailbox\<lparr>lock := True, message_count := 2\<rparr>))
               (0 := (queues (full_mailbox\<lparr>lock := True, message_count := 2\<rparr>) 0)\<lparr>items := []\<rparr>)\<rparr>)
   \<and> exec (two_subscribers, None) interleaving = Some (interleaving_replies, midway)
   \<and> lock (fst midway) = (snd midway \<noteq> None)
   \<and> step (full_mailbox\<lparr>lock := True, message_count := 2\<rparr>, Some (order_msg ''o2'', [0])) Deliver = None
   \<and> step (full_mailbox\<lparr>lock := True, message_count := 2\<rparr>, Some (order_msg ''o2'', [0]))
         (Enter (Subscribe (Member PAYMENT) 1)) = None"
proof -
  let ?w1 = "full_mailbox\<lparr>lock := True, message_count := 2\<rparr>"
  have a: "\<not> lock full_mailbox" by (simp add: full_mailbox_eq)
  have p: "publish full_mailbox (order_msg ''o2'') = Blocked (NotFull 0) ?w1"
    by (simp add: full_mailbox_eq bus_defs subs_of_def order_msg_def)
  have i: "items (queues ?w1 0) = order_msg ''o1'' # []"
    by (simp add: full_mailbox_eq)
  have a2: "bus_inv two_subscribers"
    unfolding bus_inv_def subs_of_def two_subscribers_eq by (simp add: MessageType_members_def)
  have b2: "\<not> lock two_subscribers" by (simp add: two_subscribers_eq)
  have r2: "exec (two_subscribers, None) interleaving = Some (interleaving_replies, midway)"
    by (simp add: interleaving_def interleaving_replies_def midway_def two_subscribers_eq
          enter_publish_def bus_defs order_msg_def bounded_queues_def)
  have r2': "exec (two_subscribers, None) interleaving = Some (interleaving_replies, (fst midway, snd midway))"
    by (simp add: r2)
  have f: "full (queues ?w1 0)"
    by (simp add: full_mailbox_eq full_def)
  note th = enqueue_under_lock [where w = full_mailbox and m = "order_msg ''o2''"
      and b = "NotFull 0" and ?w1.0 = ?w1 and x = "Member PAYMENT" and q' = 0
      and m' = "payment_msg ''p1''" and y = "order_msg ''o1''" and ys = "[]"
      and ?w0.0 = two_subscribers and es = interleaving and os = interleaving_replies
      and ?w2.0 = "fst midway" and p = "snd midway"]
  note th1 = enqueue_under_lock [where w = full_mailbox and m = "order_msg ''o2''"
      and b = "NotFull 0" and ?w1.0 = ?w1 and x = "Member PAYMENT" and q' = 1
      and ?w2.0 = ?w1 and q = 0 and qs = "[]"]
  have l: "lock ?w1"
    using mp [OF th [THEN conjunct1] conjI [OF a p]] by (rule conjunct1)
  have s: "subscribe ?w1 (Member PAYMENT) 1 = Blocked OnLock ?w1"
    using mp [OF th1 [THEN conjunct2, THEN conjunct1] l] by (rule conjunct1)
  have g: "get_stats ?w1 = Blocked OnLock ?w1"
    using mp [OF th [THEN conjunct2, THEN conjunct1] l, THEN conjunct2, THEN conjunct2, THEN conjunct2] .
  have c: "get ?w1 0 = Returned (order_msg ''o1'')
      (?w1\<lparr>queues := (queues ?w1)(0 := (queues ?w1 0)\<lparr>items := []\<rparr>)\<rparr>)"
    using mp [OF th [THEN conjunct2, THEN conjunct2, THEN conjunct1] i] .
  have k: "lock (fst midway) = (snd midway \<noteq> None)"
    using mp [OF th [THEN conjunct2, THEN conjunct2, THEN conjunct2, THEN conjunct1]
        conjI [OF a2 conjI [OF b2 r2']]] .
  note blocked = mp [OF th1 [THEN conjunct2, THEN conjunct2, THEN conjunct2, THEN conjunct2]
      conjI [OF l f]]
  show ?thesis
    using p l s g c r2 k blocked [THEN conjunct1] blocked [THEN conjunct2, THEN conjunct1]
    by (intro conjI)
qed

section \<open>Subscribe followed by unsubscribe\<close>

text \<open>
  C10. When mailbox \<open>q\<close> is not in the subscriber list of type \<open>t\<close>, \<open>subscribe(t, q)\<close>
  returns with \<open>q\<close> appended to that list, and \<open>unsubscribe(t, q)\<close> on the state it left
  returns the bus to exactly the state before the two calls: the list of \<open>t\<close>, the lists
  of all other types and everything else.
\<close>

theorem subscribe_unsubscribe_roundtrip:
  assumes "bus_inv w" and "\<not> lock w" and "q \<notin> set (subs_of w t)"
  shows "subscribe w (Member t) q =
           Returned () (w\<lparr>subscribers := AList.update t (subs_of w t @ [q]) (subscribers w)\<rparr>)
         \<and> subs_of (state_of (subscribe w (Member t) q)) t = subs_of w t @ [q]
         \<and> unsubscribe (state_of (subscribe w (Member t) q)) (Member t) q = Returned () w"
proof -
  let ?d = "AList.update t (subs_of w t @ [q]) (subscribers w)"
  let ?w1 = "w\<lparr>subscribers := ?d\<rparr>"
  have look: "map_of (subscribers w) t = Some (subs_of w t)"
    using assms(1) by (rule inv_lookup)
  have sub: "subscribe w (Member t) q = Returned () ?w1"
    using subscribe_member [OF assms(2) look, of q] assms(3) by simp
  have look1: "map_of (subscribers ?w1) t = Some (subs_of w t @ [q])"
    by (simp add: update_conv')
  have rem: "remove1 q (subs_of w t @ [q]) = subs_of w t"
    using assms(3) by (simp add: remove1_append)
  have restore: "AList.update t (subs_of w t) (subscribers w) = subscribers w"
    using look by (simp add: update_triv)
  have "\<not> lock ?w1" using assms(2) by simp
  from unsubscribe_member [OF this look1, of q]
  have "unsubscribe ?w1 (Member t) q = Returned () w"
    by (simp add: rem restore)
  with sub show ?thesis
    by (simp add: subs_of_update)
qed

theorem subscribe_unsubscribe_roundtrip_witness:
  "subs_of (state_of (subscribe (MessageBus ''bus'' (bounded_queues 0)) (Member ORDER) 7)) ORDER = [7]
   \<and> unsubscribe (state_of (subscribe (MessageBus ''bus'' (bounded_queues 0)) (Member ORDER) 7)) (Member ORDER) 7
       = Returned () (MessageBus ''bus'' (bounded_queues 0))"
proof -
  have a: "bus_inv (MessageBus ''bus'' (bounded_queues 0))" by (rule bus_inv_init)
  have b: "\<not> lock (MessageBus ''bus'' (bounded_queues 0))" by (simp add: MessageBus_def)
  have c: "7 \<notin> set (subs_of (MessageBus ''bus'' (bounded_queues 0)) ORDER)"
    by (simp add: subs_of_def init_subscribers)
  have d: "subs_of (MessageBus ''bus'' (bounded_queues 0)) ORDER = []"
    by (simp add: subs_of_def init_subscribers)
  show ?thesis
    using subscribe_unsubscribe_roundtrip [OF a b c] unfolding d append_Nil by blast
qed

end
